theory Spec2Isabelle
  imports Main
begin

section \<open>Exceptions\<close>

text \<open>
  The exceptions the gateway code raises or lets through. \<open>CallbackError\<close> stands for
  any \<open>Exception\<close> instance raised by a user callback or by the transport; its string
  is the exception's text.
\<close>

datatype exn =
    KeyError
  | ValueError
  | AttributeError
  | TypeError
  | TimeoutError
  | RestartSessionError
  | SessionCreateError
  | WebSocketClosedError
  | UnknownEventError
  | ExpectedAsyncFunction
  | CallbackError string

section \<open>Event names (events/__init__.py)\<close>

text \<open>
  \<open>event_name.replace('on_', '')\<close>: Python's \<open>str.replace\<close> scans from the left and
  deletes every non-overlapping occurrence of the pattern.
\<close>

fun replace_on :: "string \<Rightarrow> string" where
  "replace_on (a # b # c # rest) =
     (if [a, b, c] = ''on_'' then replace_on rest else a # replace_on (b # c # rest))"
| "replace_on xs = xs"

text \<open>
  \<open>HivenEventHandler._events\<close>, as the list literal evaluates: the adjacent literals
  \<open>'house_entity_update' 'relationship_update'\<close> have no comma between them, so Python
  concatenates them into one entry; \<open>'house_delete'\<close> occurs twice.
\<close>

definition events :: "string list" where
  "events =
    [''connection_start'', ''init'', ''ready'', ''user_update'',
     ''house_join'', ''house_remove'', ''house_update'', ''house_delete'', ''house_delete'',
     ''house_downtime'',
     ''room_create'', ''room_update'', ''room_delete'',
     ''house_member_join'', ''house_member_leave'', ''house_member_enter'',
     ''house_member_exit'', ''member_update'',
     ''house_member_chunk'', ''batch_house_member_update'',
     ''house_entity_updaterelationship_update'',
     ''presence_update'',
     ''message_create'', ''message_update'', ''message_delete'',
     ''typing_start'']"

section \<open>Listeners and the registry\<close>

text \<open>
  Python values that the code passes around and stores: the event payload, the tuple of
  positional arguments, the dict of keyword arguments, and the JSON documents of the
  gateway (a JSON array is a \<open>PyTuple\<close>, a JSON object a \<open>PyDict\<close>). Python is dynamically
  typed, so one type holds them all.
\<close>

datatype pyval =
    PyNone
  | PyInt int
  | PyStr string
  | PyTuple "pyval list"
  | PyDict "(string \<times> pyval) list"

type_synonym payload = pyval
type_synonym args = "pyval list"
type_synonym kwargs = "(string \<times> pyval) list"

text \<open>
  The two listener classes. \<open>coro\<close> is what \<open>inspect.iscoroutinefunction(self.coro)\<close>
  sees: \<open>NotCoroutine\<close> for \<open>None\<close> or a plain function, \<open>Coroutine n\<close> for the async
  function numbered \<open>n\<close>.
\<close>

datatype kind = Single | Multi

datatype coro = NotCoroutine | Coroutine nat

record listener =
  kind :: kind
  coro :: coro
  event_name :: string
  dispatched :: bool
  event_data :: pyval
  largs :: pyval
  lkwargs :: pyval

text \<open>
  Listener objects are shared by reference between the registry, the running dispatch and
  a waiter, so they live in a store addressed by object identity. \<open>active_listeners\<close> is
  the dict from event name to the list of listener objects. Three fields record what
  happened, in order: \<open>log\<close> the calls of \<open>utils.log_traceback\<close> (event name and
  exception), \<open>invoked\<close> the listener objects whose \<open>__call__\<close> ran, \<open>called\<close> the
  callback invocations.
\<close>

record client =
  active_listeners :: "string \<rightharpoonup> nat list"
  store :: "nat \<rightharpoonup> listener"
  next_id :: nat
  log :: "(string \<times> exn) list"
  invoked :: "nat list"
  called :: "(nat \<times> args \<times> kwargs) list"

definition new_client :: client where
  "new_client = \<lparr>active_listeners = Map.empty, store = Map.empty, next_id = 0,
                 log = [], invoked = [], called = []\<rparr>"

text \<open>\<open>dict.get(name)\<close> followed by a truth test: a missing key and an empty list are both false.\<close>

definition get_truthy :: "client \<Rightarrow> string \<Rightarrow> nat list option" where
  "get_truthy c name =
     (case active_listeners c name of
        None \<Rightarrow> None
      | Some ids \<Rightarrow> (if ids = [] then None else Some ids))"

definition add_listener :: "client \<Rightarrow> nat \<Rightarrow> string \<Rightarrow> client" where
  "add_listener c lid name =
     (case get_truthy c name of
        Some ids \<Rightarrow> c\<lparr>active_listeners := (active_listeners c)(name \<mapsto> ids @ [lid])\<rparr>
      | None \<Rightarrow> c\<lparr>active_listeners := (active_listeners c)(name \<mapsto> [lid])\<rparr>)"

text \<open>\<open>list.remove(x)\<close> deletes the first occurrence and raises \<open>ValueError\<close> when there is none.\<close>

definition remove_listener :: "client \<Rightarrow> nat \<Rightarrow> string \<Rightarrow> exn + client" where
  "remove_listener c lid name =
     (case get_truthy c name of
        Some ids \<Rightarrow>
          (if lid \<in> set ids
           then Inr (c\<lparr>active_listeners := (active_listeners c)(name \<mapsto> remove1 lid ids)\<rparr>)
           else Inl ValueError)
      | None \<Rightarrow> Inl KeyError)"

text \<open>
  The constructors of both listener classes: a new object, registered by \<open>add_listener\<close>
  under its own \<open>event_name\<close>. The result is the new object's identity.
\<close>

definition new_listener :: "kind \<Rightarrow> client \<Rightarrow> string \<Rightarrow> coro \<Rightarrow> client \<times> nat" where
  "new_listener k c name co =
     (let lid = next_id c;
          l = \<lparr>kind = k, coro = co, event_name = name, dispatched = False,
               event_data = PyNone, largs = PyNone, lkwargs = PyNone\<rparr>;
          c1 = c\<lparr>store := (store c)(lid \<mapsto> l), next_id := Suc lid\<rparr>
      in (add_listener c1 lid name, lid))"

text \<open>
  \<open>add_new_multi_event_listener\<close> and \<open>add_new_single_event_listener\<close>: normalise the
  name, create the bucket when the key is missing, construct the listener.
\<close>

definition ensure_bucket :: "client \<Rightarrow> string \<Rightarrow> client" where
  "ensure_bucket c name =
     (case active_listeners c name of
        None \<Rightarrow> c\<lparr>active_listeners := (active_listeners c)(name \<mapsto> [])\<rparr>
      | Some _ \<Rightarrow> c)"

definition add_new_multi_event_listener :: "client \<Rightarrow> string \<Rightarrow> coro \<Rightarrow> client \<times> nat" where
  "add_new_multi_event_listener c name co =
     new_listener Multi (ensure_bucket c (replace_on name)) (replace_on name) co"

definition add_new_single_event_listener :: "client \<Rightarrow> string \<Rightarrow> coro \<Rightarrow> client \<times> nat" where
  "add_new_single_event_listener c name co =
     new_listener Single (ensure_bucket c (replace_on name)) (replace_on name) co"

section \<open>Dispatch\<close>

text \<open>
  A callback's behaviour is a parameter: \<open>run n a k\<close> is \<open>None\<close> when coroutine \<open>n\<close>
  called with \<open>(*a, **k)\<close> runs to completion and \<open>Some e\<close> when it raises the
  \<open>Exception\<close> \<open>e\<close>. Callbacks run without touching the registry.
\<close>

type_synonym behaviour = "nat \<Rightarrow> args \<Rightarrow> kwargs \<Rightarrow> exn option"

text \<open>The body of the \<open>try\<close> block shared by both \<open>dispatch\<close> methods, with its \<open>except\<close>.\<close>

definition call_coro :: "behaviour \<Rightarrow> client \<Rightarrow> string \<Rightarrow> nat \<Rightarrow> args \<Rightarrow> kwargs \<Rightarrow> client" where
  "call_coro run c name n a k =
     (let c1 = c\<lparr>called := called c @ [(n, a, k)]\<rparr>
      in case run n a k of
           None \<Rightarrow> c1
         | Some e \<Rightarrow> c1\<lparr>log := log c1 @ [(name, e)]\<rparr>)"

text \<open>\<open>MultiDispatchEventListener.dispatch\<close>\<close>

definition multi_dispatch ::
  "behaviour \<Rightarrow> client \<Rightarrow> listener \<Rightarrow> payload \<Rightarrow> args \<Rightarrow> kwargs \<Rightarrow> client \<times> exn option" where
  "multi_dispatch run c l p a k =
     (case coro l of
        Coroutine n \<Rightarrow> (call_coro run c (event_name l) n a k, None)
      | NotCoroutine \<Rightarrow> (c, None))"

text \<open>\<open>SingleDispatchEventListener.dispatch\<close>\<close>

definition single_dispatch ::
  "behaviour \<Rightarrow> client \<Rightarrow> nat \<Rightarrow> listener \<Rightarrow> payload \<Rightarrow> args \<Rightarrow> kwargs \<Rightarrow> client \<times> exn option" where
  "single_dispatch run c lid l p a k =
     (let l1 = l\<lparr>event_data := p\<rparr>;
          (l2, c2) =
            (case coro l of
               Coroutine n \<Rightarrow>
                 (l1\<lparr>largs := PyTuple a, lkwargs := PyDict k\<rparr>,
                  call_coro run c (event_name l) n a k)
             | NotCoroutine \<Rightarrow> (l1, c));
          l3 = l2\<lparr>dispatched := True\<rparr>;
          c3 = c2\<lparr>store := (store c2)(lid \<mapsto> l3)\<rparr>
      in case remove_listener c3 lid (event_name l) of
           Inr c4 \<Rightarrow> (c4, None)
         | Inl e \<Rightarrow> (c3, Some e))"

text \<open>\<open>listener.__call__\<close>: the coroutine of the object's own \<open>dispatch\<close>.\<close>

definition listener_call ::
  "behaviour \<Rightarrow> client \<Rightarrow> nat \<Rightarrow> payload \<Rightarrow> args \<Rightarrow> kwargs \<Rightarrow> client \<times> exn option" where
  "listener_call run c lid p a k =
     (let c0 = c\<lparr>invoked := invoked c @ [lid]\<rparr>
      in case store c0 lid of
           None \<Rightarrow> (c0, Some AttributeError)
         | Some l \<Rightarrow>
             (case kind l of
                Single \<Rightarrow> single_dispatch run c0 lid l p a k
              | Multi \<Rightarrow> multi_dispatch run c0 l p a k))"

text \<open>
  \<open>asyncio.gather(*tasks)\<close> over the coroutines built from the snapshot of the bucket:
  every task runs, in the order of the list; the first exception a task lets through is
  the one \<open>gather\<close> raises, and it does not stop the other tasks.
\<close>

fun gather ::
  "behaviour \<Rightarrow> client \<Rightarrow> nat list \<Rightarrow> payload \<Rightarrow> args \<Rightarrow> kwargs \<Rightarrow> client \<times> exn option" where
  "gather run c [] p a k = (c, None)"
| "gather run c (i # is) p a k =
     (case listener_call run c i p a k of
        (c1, e1) \<Rightarrow>
          (case gather run c1 is p a k of
             (c2, e2) \<Rightarrow> (c2, (case e1 of Some e \<Rightarrow> Some e | None \<Rightarrow> e2))))"

text \<open>\<open>HivenEventHandler.dispatch\<close>\<close>

definition dispatch ::
  "behaviour \<Rightarrow> client \<Rightarrow> string \<Rightarrow> payload \<Rightarrow> args \<Rightarrow> kwargs \<Rightarrow> client \<times> exn option" where
  "dispatch run c name p a k =
     (case get_truthy c (replace_on name) of
        Some ids \<Rightarrow> gather run c ids p a k
      | None \<Rightarrow> (c, None))"

section \<open>Waiting for an event\<close>

text \<open>
  A coroutine that never gets past an \<open>await\<close> does not return: \<open>Suspended\<close>.
\<close>

datatype 'a outcome = Returned 'a | Raised exn | Suspended

text \<open>
  What the other coroutines do while \<open>wait_for\<close> sleeps: each sleep of the polling
  loop lets a list of \<open>dispatch\<close> calls run. An exception of such a call is raised in
  its own caller, not in the sleeper.
\<close>

type_synonym call = "string \<times> payload \<times> args \<times> kwargs"

fun run_calls :: "behaviour \<Rightarrow> client \<Rightarrow> call list \<Rightarrow> client" where
  "run_calls run c [] = c"
| "run_calls run c ((name, p, a, k) # calls) =
     run_calls run (fst (dispatch run c name p a k)) calls"

text \<open>
  \<open>while not listener.dispatched: await asyncio.sleep(.05)\<close>, then the \<open>return\<close>. When
  the other coroutines have nothing more to do and the flag is still false, the loop
  sleeps forever.
\<close>

fun poll :: "behaviour \<Rightarrow> client \<Rightarrow> nat \<Rightarrow> call list list \<Rightarrow> (pyval \<times> pyval) outcome \<times> client" where
  "poll run c lid [] =
     (case store c lid of
        None \<Rightarrow> (Raised AttributeError, c)
      | Some l \<Rightarrow>
          (if dispatched l then (Returned (largs l, lkwargs l), c) else (Suspended, c)))"
| "poll run c lid (calls # rest) =
     (case store c lid of
        None \<Rightarrow> (Raised AttributeError, c)
      | Some l \<Rightarrow>
          (if dispatched l then (Returned (largs l, lkwargs l), c)
           else poll run (run_calls run c calls) lid rest))"

text \<open>
  \<open>HivenEventHandler.wait_for\<close>: the name is normalised here and once more inside
  \<open>add_new_single_event_listener\<close>.
\<close>

definition wait_for ::
  "behaviour \<Rightarrow> client \<Rightarrow> string \<Rightarrow> coro \<Rightarrow> call list list \<Rightarrow> (pyval \<times> pyval) outcome \<times> client" where
  "wait_for run c name co env =
     (case add_new_single_event_listener c (replace_on name) co of
        (c1, lid) \<Rightarrow> poll run c1 lid env)"

section \<open>The event decorator\<close>

text \<open>
  \<open>HivenEventHandler.event\<close> applied to a function named \<open>fname\<close>; \<open>co\<close> tells whether
  it is a coroutine function. Both \<open>event(coro)\<close> and \<open>event()(coro)\<close> run \<open>decorator(coro)\<close>.
  The name is normalised here and once more inside \<open>add_new_multi_event_listener\<close>.
\<close>

definition event :: "client \<Rightarrow> string \<Rightarrow> coro \<Rightarrow> client \<times> exn option" where
  "event c fname co =
     (case co of
        NotCoroutine \<Rightarrow> (c, Some ExpectedAsyncFunction)
      | Coroutine n \<Rightarrow>
          (if replace_on fname \<notin> set events then (c, Some UnknownEventError)
           else (fst (add_new_multi_event_listener c (replace_on fname) co), None)))"


section \<open>Writing frames (gateway/websocket.py)\<close>

text \<open>
  The transport's write side: \<open>sent\<close> lists the JSON documents written so far,
  \<open>write_error\<close> is the exception \<open>socket.send_str\<close> raises, if it raises.
\<close>

record socket =
  sent :: "pyval list"
  write_error :: "exn option"

definition send_str :: "socket \<Rightarrow> pyval \<Rightarrow> exn + socket" where
  "send_str sock doc =
     (case write_error sock of
        Some e \<Rightarrow> Inl e
      | None \<Rightarrow> Inr (sock\<lparr>sent := sent sock @ [doc]\<rparr>))"

text \<open>\<open>OPCode\<close>: \<open>EVENT = 0\<close>, \<open>CONNECTION_START = 1\<close>, \<open>AUTH = 2\<close>, \<open>HEARTBEAT = 3\<close>.\<close>

definition EVENT :: pyval where "EVENT = PyInt 0"
definition CONNECTION_START :: pyval where "CONNECTION_START = PyInt 1"
definition AUTH :: pyval where "AUTH = PyInt 2"
definition HEARTBEAT :: pyval where "HEARTBEAT = PyInt 3"

text \<open>\<open>HivenWebSocket.send_heartbeat\<close>: any \<open>Exception\<close> of the write becomes \<open>RestartSessionError\<close>.\<close>

definition send_heartbeat :: "socket \<Rightarrow> exn + socket" where
  "send_heartbeat sock =
     (case send_str sock (PyDict [(''op'', HEARTBEAT)]) of
        Inl e \<Rightarrow> Inl RestartSessionError
      | Inr sock' \<Rightarrow> Inr sock')"

text \<open>\<open>HivenWebSocket.send_auth\<close>: any \<open>Exception\<close> of the write becomes \<open>SessionCreateError\<close>.\<close>

definition send_auth :: "socket \<Rightarrow> pyval \<Rightarrow> exn + socket" where
  "send_auth sock token =
     (case send_str sock (PyDict [(''op'', AUTH), (''d'', PyDict [(''token'', token)])]) of
        Inl e \<Rightarrow> Inl SessionCreateError
      | Inr sock' \<Rightarrow> Inr sock')"

section \<open>KeepAlive\<close>

text \<open>
  What the transport does with one heartbeat write: it returns in time, it raises, or it
  does not return before the timeout. \<open>heartbeat_task\<close> is the result that the task
  \<open>asyncio.wait_for(self.ws.send_heartbeat(), timeout)\<close> ends with: \<open>None\<close> for a normal
  return, the exception otherwise (\<open>send_heartbeat\<close> turns a failed write into
  \<open>RestartSessionError\<close>, \<open>wait_for\<close> raises \<open>TimeoutError\<close>).
\<close>

datatype transport = Completes | Fails exn | Hangs

definition heartbeat_task :: "transport \<Rightarrow> exn option" where
  "heartbeat_task t =
     (case t of
        Completes \<Rightarrow> None
      | Fails e \<Rightarrow> Some RestartSessionError
      | Hangs \<Rightarrow> Some TimeoutError)"

text \<open>
  A task object: its timeout, the result it ends with, whether it has been cancelled, and
  how often \<open>cancel()\<close> was called on it.
\<close>

record task =
  timeout :: nat
  task_result :: "exn option"
  cancelled :: bool
  cancel_calls :: nat

text \<open>
  The \<open>KeepAlive\<close> object with the two attributes of the websocket it reads (\<open>ws.open\<close>,
  \<open>ws.heartbeat\<close>, which is \<open>None\<close> until set). \<open>started\<close> holds the task objects the loop
  has created, oldest first; \<open>ka_task\<close> (\<open>_task\<close>) refers to one of them by its position,
  so that a change of the task is seen through both.
\<close>

record keepalive =
  ka_active :: bool
  ka_task :: "nat option"
  heartbeat :: "nat option"
  ws_open :: bool
  started :: "task list"

text \<open>
  \<open>KeepAlive.stop\<close>. \<open>cancel()\<close> is called only on a task that is already cancelled,
  where it changes nothing but the count.
\<close>

definition stop :: "keepalive \<Rightarrow> keepalive" where
  "stop ka =
     (let ka1 =
        (case ka_task ka of
           Some i \<Rightarrow>
             (if i < length (started ka) \<and> cancelled (started ka ! i)
              then ka\<lparr>started := (started ka)
                     [i := (started ka ! i)\<lparr>cancel_calls := Suc (cancel_calls (started ka ! i))\<rparr>]\<rparr>
              else ka)
         | None \<Rightarrow> ka)
      in ka1\<lparr>ka_active := False, ka_task := None\<rparr>)"

text \<open>
  What other coroutines do while the loop sleeps: call \<open>stop()\<close>, change \<open>ws.open\<close> (the
  read loop does), cancel the heartbeat task. The sleep then ends normally or with
  \<open>CancelledError\<close>.
\<close>

datatype action = Stop | SetOpen bool | CancelSend

datatype wake = Wakes | Cancelled

definition apply_action :: "keepalive \<Rightarrow> action \<Rightarrow> keepalive" where
  "apply_action ka act =
     (case act of
        Stop \<Rightarrow> stop ka
      | SetOpen b \<Rightarrow> ka\<lparr>ws_open := b\<rparr>
      | CancelSend \<Rightarrow>
          (case ka_task ka of
             Some i \<Rightarrow>
               (if i < length (started ka)
                then ka\<lparr>started := (started ka)[i := (started ka ! i)\<lparr>cancelled := True\<rparr>]\<rparr>
                else ka)
           | None \<Rightarrow> ka))"

text \<open>
  The first statement of the \<open>try\<close> block: a new task for one heartbeat, bounded by 30,
  stored in \<open>_task\<close>. Nothing awaits the task; its result stays in the task object.
  \<open>net i\<close> is what the transport does with the \<open>i\<close>-th heartbeat.
\<close>

definition create_task :: "(nat \<Rightarrow> transport) \<Rightarrow> keepalive \<Rightarrow> keepalive" where
  "create_task net ka =
     (let t = \<lparr>timeout = 30, task_result = heartbeat_task (net (length (started ka))),
                cancelled = False, cancel_calls = 0\<rparr>
      in ka\<lparr>ka_task := Some (length (started ka)), started := started ka @ [t]\<rparr>)"

text \<open>
  The \<open>while\<close> loop of \<open>KeepAlive.run\<close>. Each element of the schedule is one sleep: the
  actions of the other coroutines during it and the way it ends. \<open>self._heartbeat / 1000\<close>
  raises \<open>TypeError\<close> when the interval is \<open>None\<close>, which \<open>except Exception: raise\<close> passes
  on. With the schedule used up the loop sleeps on: \<open>Suspended\<close>.
\<close>

fun run_loop ::
  "(nat \<Rightarrow> transport) \<Rightarrow> keepalive \<Rightarrow> (action list \<times> wake) list \<Rightarrow> unit outcome \<times> keepalive" where
  "run_loop net ka [] =
     (if ws_open ka \<and> ka_active ka
      then (case heartbeat ka of
              None \<Rightarrow> (Raised TypeError, create_task net ka)
            | Some h \<Rightarrow> (Suspended, create_task net ka))
      else (Returned (), ka))"
| "run_loop net ka ((acts, wk) # rest) =
     (if ws_open ka \<and> ka_active ka
      then (case heartbeat ka of
              None \<Rightarrow> (Raised TypeError, create_task net ka)
            | Some h \<Rightarrow>
                (let ka2 = foldl apply_action (create_task net ka) acts
                 in case wk of
                      Cancelled \<Rightarrow> (Returned (), ka2)
                    | Wakes \<Rightarrow> run_loop net ka2 rest))
      else (Returned (), ka))"

text \<open>\<open>KeepAlive.run\<close> (\<open>run\<close> names the callbacks' behaviour elsewhere).\<close>

definition keepalive_run :: "(nat \<Rightarrow> transport) \<Rightarrow> keepalive \<Rightarrow> (action list \<times> wake) list \<Rightarrow> unit outcome \<times> keepalive" where
  "keepalive_run net ka schedule = run_loop net (ka\<lparr>ka_active := True\<rparr>) schedule"

section \<open>Receiving frames and the initialisation handshake\<close>

text \<open>
  A message as \<open>socket.receive()\<close> returns it, by its \<open>WSMsgType\<close>. A \<open>TEXT\<close> or
  \<open>BINARY\<close> message carries what \<open>msg.json()\<close> gives for its data: the parsed document,
  or \<open>None\<close> for data that is not JSON (\<open>json()\<close> then raises a \<open>ValueError\<close>). The other
  types have no data (\<open>json()\<close> raises \<open>TypeError\<close>); \<open>OTHER\<close> stands for ping, pong and
  continuation. A parsed JSON object has each key once.
\<close>

datatype wsmsg =
    TEXT "pyval option"
  | BINARY "pyval option"
  | CLOSE
  | CLOSING
  | CLOSED
  | ERROR
  | OTHER

definition json :: "wsmsg \<Rightarrow> exn + pyval" where
  "json m =
     (case m of
        TEXT (Some j) \<Rightarrow> Inr j
      | TEXT None \<Rightarrow> Inl ValueError
      | BINARY (Some j) \<Rightarrow> Inr j
      | BINARY None \<Rightarrow> Inl ValueError
      | _ \<Rightarrow> Inl TypeError)"

text \<open>\<open>x.get(key)\<close>, \<open>x.get(key, default)\<close>, \<open>x[key]\<close> and \<open>len(x)\<close> of Python.\<close>

definition py_get_default :: "pyval \<Rightarrow> string \<Rightarrow> pyval \<Rightarrow> exn + pyval" where
  "py_get_default x key dflt =
     (case x of
        PyDict kvs \<Rightarrow> Inr (case map_of kvs key of Some v \<Rightarrow> v | None \<Rightarrow> dflt)
      | _ \<Rightarrow> Inl AttributeError)"

definition py_get :: "pyval \<Rightarrow> string \<Rightarrow> exn + pyval" where
  "py_get x key = py_get_default x key PyNone"

definition py_item :: "pyval \<Rightarrow> string \<Rightarrow> exn + pyval" where
  "py_item x key =
     (case x of
        PyDict kvs \<Rightarrow> (case map_of kvs key of Some v \<Rightarrow> Inr v | None \<Rightarrow> Inl KeyError)
      | _ \<Rightarrow> Inl TypeError)"

definition py_len :: "pyval \<Rightarrow> exn + nat" where
  "py_len x =
     (case x of
        PyDict kvs \<Rightarrow> Inr (length kvs)
      | PyTuple xs \<Rightarrow> Inr (length xs)
      | PyStr s \<Rightarrow> Inr (length s)
      | _ \<Rightarrow> Inl TypeError)"

text \<open>\<open>HivenWebSocket.extract_event\<close>\<close>

definition extract_event :: "pyval \<Rightarrow> exn + (pyval \<times> pyval \<times> pyval)" where
  "extract_event msg =
     (case py_get msg ''op'' of
        Inl e \<Rightarrow> Inl e
      | Inr op \<Rightarrow>
          (case py_get msg ''e'' of
             Inl e \<Rightarrow> Inl e
           | Inr ev \<Rightarrow>
               (case py_get msg ''d'' of
                  Inl e \<Rightarrow> Inl e
                | Inr d \<Rightarrow> Inr (op, ev, d))))"

text \<open>
  The storage collaborator \<open>client.storage\<close> is not part of these sources; the handshake
  uses three of its operations, which are parameters here: \<open>update_all(data)\<close>,
  \<open>add_or_update_house(d)\<close> and \<open>len(storage['houses'])\<close>.
\<close>

record 's storage_ops =
  update_all :: "pyval \<Rightarrow> 's \<Rightarrow> 's"
  add_or_update_house :: "pyval \<Rightarrow> 's \<Rightarrow> 's"
  houses_len :: "'s \<Rightarrow> nat"

text \<open>
  What the websocket does that others see, in order: a message taken from the socket, a
  message entering \<open>received_message\<close>, \<open>client.call_listeners(name)\<close>,
  \<open>parsers.dispatch(event, data)\<close>, the warning for an unknown op-code. The calls into
  the client and the parsers (not part of these sources) are recorded and return.
\<close>

datatype occurrence =
    Received wsmsg
  | Handled wsmsg
  | CallListeners string
  | ParserDispatch pyval pyval
  | Warned pyval

text \<open>
  The websocket's state. In place of the two timestamps the record says whether
  \<open>_connection_start\<close> and \<open>_startup_time\<close> have been set.
\<close>

record 's websocket =
  is_open :: bool
  is_ready :: bool
  connection_start_set :: bool
  startup_time_set :: bool
  storage :: 's
  trace :: "occurrence list"

text \<open>\<open>HivenWebSocket.received_init_event\<close>: both branches return the message.\<close>

definition received_init_event :: "wsmsg \<Rightarrow> exn + wsmsg" where
  "received_init_event m =
     (case json m of
        Inl e \<Rightarrow> Inl e
      | Inr j \<Rightarrow> (case py_get j ''op'' of Inl e \<Rightarrow> Inl e | Inr op \<Rightarrow> Inr m))"

text \<open>
  \<open>wait_for_event(handler=self.received_init_event)\<close> once \<open>socket.receive()\<close> has returned
  \<open>m\<close>. A binary message is never \<open>bytes\<close>, so that branch returns \<open>None\<close>, as does a
  message of a type no branch names.
\<close>

definition wait_for_event_init :: "'s websocket \<Rightarrow> wsmsg \<Rightarrow> (exn + wsmsg option) \<times> 's websocket" where
  "wait_for_event_init w m =
     (case m of
        TEXT t \<Rightarrow>
          (case received_init_event m of
             Inl e \<Rightarrow> (Inl e, w)
           | Inr r \<Rightarrow> (Inr (Some r), w))
      | BINARY b \<Rightarrow> (Inr None, w)
      | CLOSE \<Rightarrow> (Inl RestartSessionError, w)
      | CLOSING \<Rightarrow> (Inl RestartSessionError, w)
      | CLOSED \<Rightarrow> (Inl WebSocketClosedError, w\<lparr>is_open := False\<rparr>)
      | ERROR \<Rightarrow> (Inl WebSocketClosedError, w)
      | OTHER \<Rightarrow> (Inr None, w))"

text \<open>
  The body of the \<open>while\<close> loop of \<open>received_init\<close> for the next message \<open>m\<close> of the
  socket; \<open>q\<close> is \<open>additional_events\<close>. \<open>if msg:\<close> tests the init document, a dict with the
  key \<open>d\<close>, and is true. \<open>ws_event.json()\<close> on \<open>None\<close> raises \<open>AttributeError\<close>.
\<close>

definition init_body ::
  "'s storage_ops \<Rightarrow> 's websocket \<Rightarrow> wsmsg list \<Rightarrow> wsmsg \<Rightarrow> exn option \<times> 's websocket \<times> wsmsg list" where
  "init_body ops w q m =
     (case wait_for_event_init (w\<lparr>trace := trace w @ [Received m]\<rparr>) m of
        (Inl e, w1) \<Rightarrow> (Some e, w1, q)
      | (Inr None, w1) \<Rightarrow> (Some AttributeError, w1, q)
      | (Inr (Some ws_event), w1) \<Rightarrow>
          (case json ws_event of
             Inl e \<Rightarrow> (Some e, w1, q)
           | Inr j \<Rightarrow>
               (case extract_event j of
                  Inl e \<Rightarrow> (Some e, w1, q)
                | Inr (op, ev, d) \<Rightarrow>
                    (if ev = PyStr ''HOUSE_JOIN''
                     then (None, w1\<lparr>storage := add_or_update_house ops d (storage w1)\<rparr>, q)
                     else (None, w1, q @ [ws_event])))))"

text \<open>
  The \<open>while\<close> loop: \<open>len(house_memberships) != len(self.client.storage['houses'])\<close> is
  tested before each receive. \<open>inbox\<close> holds the messages the socket will deliver; with
  none left \<open>socket.receive()\<close> does not return. The result is the outcome, the state, the
  queue and the messages not yet taken.
\<close>

fun init_loop ::
  "'s storage_ops \<Rightarrow> pyval \<Rightarrow> 's websocket \<Rightarrow> wsmsg list \<Rightarrow> wsmsg list \<Rightarrow>
     unit outcome \<times> 's websocket \<times> wsmsg list \<times> wsmsg list" where
  "init_loop ops hm w q [] =
     (case py_len hm of
        Inl e \<Rightarrow> (Raised e, w, q, [])
      | Inr n \<Rightarrow>
          (if n \<noteq> houses_len ops (storage w) then (Suspended, w, q, [])
           else (Returned (), w, q, [])))"
| "init_loop ops hm w q (m # ms) =
     (case py_len hm of
        Inl e \<Rightarrow> (Raised e, w, q, m # ms)
      | Inr n \<Rightarrow>
          (if n \<noteq> houses_len ops (storage w)
           then (case init_body ops w q m of
                   (Some e, w1, q1) \<Rightarrow> (Raised e, w1, q1, ms)
                 | (None, w1, q1) \<Rightarrow> init_loop ops hm w1 q1 ms)
           else (Returned (), w, q, m # ms)))"

text \<open>
  \<open>received_message\<close>, \<open>received_init\<close> and the \<open>for\<close> loop that replays
  \<open>additional_events\<close> call each other: replaying a queued \<open>INIT_STATE\<close> frame enters
  \<open>received_init\<close> again. The recursion is tied through a parameter: \<open>received_message_with\<close>
  and \<open>replay_with\<close> take the function they call, and \<open>received_init\<close> recurses on a bound
  of the nesting depth, with \<open>None\<close> when the bound was too small.
\<close>

type_synonym 's result = "(unit outcome \<times> 's websocket \<times> wsmsg list) option"

definition received_message_with ::
  "('s websocket \<Rightarrow> pyval \<Rightarrow> wsmsg list \<Rightarrow> 's result) \<Rightarrow>
     's websocket \<Rightarrow> wsmsg \<Rightarrow> wsmsg list \<Rightarrow> 's result" where
  "received_message_with init w m inbox =
     (case json m of
        Inl e \<Rightarrow> Some (Raised e, w\<lparr>trace := trace w @ [Handled m]\<rparr>, inbox)
      | Inr j \<Rightarrow>
          (case extract_event j of
             Inl e \<Rightarrow> Some (Raised e, w\<lparr>trace := trace w @ [Handled m]\<rparr>, inbox)
           | Inr (op, ev, d) \<Rightarrow>
               (if op = CONNECTION_START
                then Some (Returned (),
                       w\<lparr>trace := trace w @ [Handled m], connection_start_set := True,
                          is_open := True\<rparr>, inbox)
                else if op = EVENT
                then (if ev = PyStr ''INIT_STATE''
                      then init (w\<lparr>trace := trace w @ [Handled m]\<rparr>) j inbox
                      else Some (Returned (),
                             w\<lparr>trace := trace w @ [Handled m, ParserDispatch ev d]\<rparr>, inbox))
                else Some (Returned (), w\<lparr>trace := trace w @ [Handled m, Warned op]\<rparr>, inbox))))"

text \<open>\<open>for event in additional_events: await self.received_message(event)\<close>\<close>

fun replay_with ::
  "('s websocket \<Rightarrow> wsmsg \<Rightarrow> wsmsg list \<Rightarrow> 's result) \<Rightarrow>
     's websocket \<Rightarrow> wsmsg list \<Rightarrow> wsmsg list \<Rightarrow> 's result" where
  "replay_with handle w [] inbox = Some (Returned (), w, inbox)"
| "replay_with handle w (m # q) inbox =
     (case handle w m inbox of
        None \<Rightarrow> None
      | Some (r, w1, inbox1) \<Rightarrow>
          (case r of
             Returned u \<Rightarrow> replay_with handle w1 q inbox1
           | Raised e \<Rightarrow> Some (Raised e, w1, inbox1)
           | Suspended \<Rightarrow> Some (Suspended, w1, inbox1)))"

text \<open>
  The end of \<open>received_init\<close>, after the replay returned in state \<open>w\<close>:
  \<open>time.time() - self._connection_start\<close> raises \<open>TypeError\<close> while \<open>_connection_start\<close> is
  \<open>None\<close>; otherwise the ready listeners are called and \<open>_ready\<close> is set.
\<close>

definition finish_init :: "'s websocket \<Rightarrow> unit outcome \<times> 's websocket" where
  "finish_init w =
     (if connection_start_set w
      then (Returned (),
            w\<lparr>startup_time_set := True, trace := trace w @ [CallListeners ''ready''],
              is_ready := True\<rparr>)
      else (Raised TypeError, w))"

text \<open>\<open>HivenWebSocket.received_init\<close>\<close>

primrec received_init ::
  "nat \<Rightarrow> 's storage_ops \<Rightarrow> 's websocket \<Rightarrow> pyval \<Rightarrow> wsmsg list \<Rightarrow> 's result" where
  "received_init 0 ops w msg inbox = None"
| "received_init (Suc n) ops w msg inbox =
     (case py_item msg ''d'' of
        Inl e \<Rightarrow> Some (Raised e, w\<lparr>trace := trace w @ [CallListeners ''init'']\<rparr>, inbox)
      | Inr data \<Rightarrow>
          (case py_get_default data ''house_memberships'' (PyDict []) of
             Inl e \<Rightarrow> Some (Raised e, w\<lparr>trace := trace w @ [CallListeners ''init'']\<rparr>, inbox)
           | Inr hm \<Rightarrow>
               (case init_loop ops hm
                       (w\<lparr>trace := trace w @ [CallListeners ''init''],
                          storage := update_all ops data (storage w)\<rparr>) [] inbox of
                  (r, w3, q, inbox3) \<Rightarrow>
                    (case r of
                       Returned u \<Rightarrow>
                         (case replay_with (received_message_with (received_init n ops)) w3 q inbox3 of
                            None \<Rightarrow> None
                          | Some (r', w4, inbox4) \<Rightarrow>
                              (case r' of
                                 Returned u' \<Rightarrow>
                                   Some (fst (finish_init w4), snd (finish_init w4), inbox4)
                               | Raised e \<Rightarrow> Some (Raised e, w4, inbox4)
                               | Suspended \<Rightarrow> Some (Suspended, w4, inbox4)))
                     | Raised e \<Rightarrow> Some (Raised e, w3, inbox3)
                     | Suspended \<Rightarrow> Some (Suspended, w3, inbox3)))))"

text \<open>\<open>HivenWebSocket.received_message\<close>, and the replay loop of \<open>received_init\<close>.\<close>

definition received_message ::
  "nat \<Rightarrow> 's storage_ops \<Rightarrow> 's websocket \<Rightarrow> wsmsg \<Rightarrow> wsmsg list \<Rightarrow> 's result" where
  "received_message n ops = received_message_with (received_init n ops)"

definition replay ::
  "nat \<Rightarrow> 's storage_ops \<Rightarrow> 's websocket \<Rightarrow> wsmsg list \<Rightarrow> wsmsg list \<Rightarrow> 's result" where
  "replay n ops = replay_with (received_message n ops)"

section \<open>Registry invariant and what a dispatch leaves behind\<close>

text \<open>
  The registry as the constructors build it: a bucket lists each of its listener objects
  once, every listed object exists, and it sits in the bucket of its own \<open>event_name\<close>.
\<close>

definition wf :: "client \<Rightarrow> bool" where
  "wf c \<longleftrightarrow>
     (\<forall>name ids. active_listeners c name = Some ids \<longrightarrow>
        distinct ids \<and>
        (\<forall>i\<in>set ids. i < next_id c \<and> (\<exists>l. store c i = Some l \<and> event_name l = name)))"

text \<open>The fields of a listener object that no dispatch writes.\<close>

definition linfo :: "client \<Rightarrow> nat \<Rightarrow> (kind \<times> coro \<times> string) option" where
  "linfo c i = map_option (\<lambda>l. (kind l, coro l, event_name l)) (store c i)"

definition is_single :: "client \<Rightarrow> nat \<Rightarrow> bool" where
  "is_single c i = (case store c i of Some l \<Rightarrow> kind l = Single | None \<Rightarrow> False)"

text \<open>A one-shot listener object after its \<open>dispatch\<close> ran with payload \<open>p\<close> and \<open>(*a, **k)\<close>.\<close>

definition fired :: "listener \<Rightarrow> payload \<Rightarrow> args \<Rightarrow> kwargs \<Rightarrow> listener" where
  "fired l p a k =
     (case coro l of
        Coroutine n \<Rightarrow>
          l\<lparr>event_data := p, largs := PyTuple a, lkwargs := PyDict k, dispatched := True\<rparr>
      | NotCoroutine \<Rightarrow> l\<lparr>event_data := p, dispatched := True\<rparr>)"

definition upd :: "payload \<Rightarrow> args \<Rightarrow> kwargs \<Rightarrow> listener \<Rightarrow> listener" where
  "upd p a k l = (if kind l = Single then fired l p a k else l)"

text \<open>The coroutine functions of the listeners \<open>ids\<close>, in order, each with its listener's name.\<close>

definition coro_of :: "client \<Rightarrow> nat \<Rightarrow> (nat \<times> string) list" where
  "coro_of c i =
     (case store c i of
        Some l \<Rightarrow> (case coro l of Coroutine n \<Rightarrow> [(n, event_name l)] | NotCoroutine \<Rightarrow> [])
      | None \<Rightarrow> [])"

definition coros :: "client \<Rightarrow> nat list \<Rightarrow> (nat \<times> string) list" where
  "coros c ids = concat (map (coro_of c) ids)"

text \<open>The log entries the raising callbacks among \<open>ns\<close> cause.\<close>

definition failures :: "behaviour \<Rightarrow> args \<Rightarrow> kwargs \<Rightarrow> (nat \<times> string) list \<Rightarrow> (string \<times> exn) list" where
  "failures run a k ns =
     concat (map (\<lambda>(n, name). case run n a k of Some e \<Rightarrow> [(name, e)] | None \<Rightarrow> []) ns)"

text \<open>The bucket a dispatch of \<open>name\<close> reads.\<close>

definition bucket :: "client \<Rightarrow> string \<Rightarrow> nat list" where
  "bucket c name = (case active_listeners c (replace_on name) of Some ids \<Rightarrow> ids | None \<Rightarrow> [])"

text \<open>
  A one-shot listener that waits in the bucket a dispatch of \<open>name\<close> reads, and one that
  has fired and left it.
\<close>

definition pending :: "client \<Rightarrow> nat \<Rightarrow> string \<Rightarrow> listener \<Rightarrow> bool" where
  "pending c lid name l \<longleftrightarrow>
     wf c \<and> store c lid = Some l \<and> \<not> dispatched l \<and> kind l = Single \<and> lid \<in> set (bucket c name)"


section \<open>Concrete registries\<close>


definition raising :: behaviour where
  "raising n a k = (if n = 0 then Some (CallbackError ''boom'') else None)"

definition three_listeners :: client where
  "three_listeners =
     fst (add_new_multi_event_listener
       (fst (add_new_single_event_listener
         (fst (add_new_multi_event_listener new_client ''on_ready'' (Coroutine 0)))
         ''ready'' (Coroutine 1)))
       ''ready'' (Coroutine 2))"


definition quiet :: behaviour where
  "quiet n a k = None"

text \<open>A socket whose writes fail, a keep-alive of an open connection, a transport that fails.\<close>

definition broken_socket :: socket where
  "broken_socket = \<lparr>sent = [], write_error = Some (CallbackError ''Cannot write to closing transport'')\<rparr>"

definition live :: keepalive where
  "live = \<lparr>ka_active = False, ka_task = None, heartbeat = Some 30000, ws_open = True, started = []\<rparr>"

definition failing_net :: "nat \<Rightarrow> transport" where
  "failing_net i = (if i = 0 then Fails (CallbackError ''Cannot write to closing transport'') else Hangs)"



section \<open>Reading a handshake run\<close>

text \<open>
  The triple \<open>extract_event\<close> gives for a text message, when \<open>json()\<close> and the three \<open>get\<close>
  succeed; \<open>None\<close> for every other message.
\<close>

definition frame_of :: "wsmsg \<Rightarrow> (pyval \<times> pyval \<times> pyval) option" where
  "frame_of m =
     (case m of
        TEXT t \<Rightarrow>
          (case json m of
             Inl e \<Rightarrow> None
           | Inr j \<Rightarrow> (case extract_event j of Inl e \<Rightarrow> None | Inr x \<Rightarrow> Some x))
      | _ \<Rightarrow> None)"

definition is_house_join :: "wsmsg \<Rightarrow> bool" where
  "is_house_join m =
     (case frame_of m of Some (op, ev, d) \<Rightarrow> ev = PyStr ''HOUSE_JOIN'' | None \<Rightarrow> False)"

definition is_init_state :: "wsmsg \<Rightarrow> bool" where
  "is_init_state m =
     (case frame_of m of
        Some (op, ev, d) \<Rightarrow> op = EVENT \<and> ev = PyStr ''INIT_STATE''
      | None \<Rightarrow> False)"

text \<open>The storage after the \<open>HOUSE_JOIN\<close> frames among \<open>ms\<close> have been applied, in order.\<close>

definition apply_join :: "'s storage_ops \<Rightarrow> 's \<Rightarrow> wsmsg \<Rightarrow> 's" where
  "apply_join ops s m =
     (case frame_of m of
        Some (op, ev, d) \<Rightarrow> (if ev = PyStr ''HOUSE_JOIN'' then add_or_update_house ops d s else s)
      | None \<Rightarrow> s)"

definition apply_joins :: "'s storage_ops \<Rightarrow> 's \<Rightarrow> wsmsg list \<Rightarrow> 's" where
  "apply_joins ops s ms = foldl (apply_join ops) s ms"

text \<open>
  What the replay of one queued frame that is not an \<open>INIT_STATE\<close> event adds to the trace:
  the frame enters \<open>received_message\<close>, and an event is handed to the parsers.
\<close>

definition replayed :: "wsmsg \<Rightarrow> occurrence list" where
  "replayed m =
     Handled m #
     (case frame_of m of
        Some (op, ev, d) \<Rightarrow>
          (if op = CONNECTION_START then []
           else if op = EVENT then [ParserDispatch ev d]
           else [Warned op])
      | None \<Rightarrow> [])"

text \<open>
  Two properties of a function that takes the state, a message or document, and the
  messages the socket will still deliver: it never leaves more messages than it found, and
  it has a result (the bound on the nesting depth suffices) on fewer than \<open>k\<close> messages.
\<close>

definition shrinking :: "('a \<Rightarrow> 'b \<Rightarrow> wsmsg list \<Rightarrow> 's result) \<Rightarrow> bool" where
  "shrinking f \<longleftrightarrow>
     (\<forall>w x inbox r w' inbox'. f w x inbox = Some (r, w', inbox') \<longrightarrow> length inbox' \<le> length inbox)"

definition total_below :: "nat \<Rightarrow> ('a \<Rightarrow> 'b \<Rightarrow> wsmsg list \<Rightarrow> 's result) \<Rightarrow> bool" where
  "total_below k f \<longleftrightarrow> (\<forall>w x inbox. length inbox < k \<longrightarrow> f w x inbox \<noteq> None)"

text \<open>
  Modelled from the spec: the storage collaborator (\<open>client.storage\<close>), whose code is not
  part of these sources. The spec names its operations (\<open>updateAll\<close>, \<open>addOrUpdateComposite\<close>,
  \<open>countOf\<close>) and its scenarios fix what the handshake sees of them: applying the manifest
  leaves the number of known houses as it is, and a \<open>HOUSE_JOIN\<close> for a house not yet known
  raises it by one. The storage is the list of the known houses' ids.
\<close>

definition cache_ops :: "pyval list storage_ops" where
  "cache_ops =
     \<lparr>update_all = (\<lambda>data s. s),
      add_or_update_house =
        (\<lambda>d s. case py_get d ''id'' of
                  Inr i \<Rightarrow> (if i \<in> set s then s else s @ [i])
                | Inl e \<Rightarrow> s),
      houses_len = length\<rparr>"

text \<open>Frames and states for concrete runs.\<close>

definition event_frame :: "string \<Rightarrow> pyval \<Rightarrow> wsmsg" where
  "event_frame name d = TEXT (Some (PyDict [(''op'', PyInt 0), (''e'', PyStr name), (''d'', d)]))"

definition house_join :: "string \<Rightarrow> wsmsg" where
  "house_join h = event_frame ''HOUSE_JOIN'' (PyDict [(''id'', PyStr h)])"

definition message_create :: "string \<Rightarrow> wsmsg" where
  "message_create t = event_frame ''MESSAGE_CREATE'' (PyDict [(''content'', PyStr t)])"

definition init_state :: "string list \<Rightarrow> pyval" where
  "init_state hs =
     PyDict [(''op'', PyInt 0), (''e'', PyStr ''INIT_STATE''),
             (''d'', PyDict [(''house_memberships'', PyDict (map (\<lambda>h. (h, PyDict [])) hs))])]"

definition connected :: "pyval list \<Rightarrow> pyval list websocket" where
  "connected houses =
     \<lparr>is_open = True, is_ready = False, connection_start_set = True, startup_time_set = False,
      storage = houses, trace = []\<rparr>"

section \<open>Proofs: the registry invariant\<close>



lemma wf_new_client: "wf new_client"
  by (simp add: wf_def new_client_def)

lemma wf_ensure_bucket: "wf c \<Longrightarrow> wf (ensure_bucket c name)"
  by (auto simp: wf_def ensure_bucket_def split: option.splits)

lemma wf_new_listener: "wf c \<Longrightarrow> wf (fst (new_listener k c name co))"
  unfolding wf_def new_listener_def add_listener_def get_truthy_def Let_def
  by (auto split: option.splits if_splits simp: less_Suc_eq) 

lemma wf_add_multi: "wf c \<Longrightarrow> wf (fst (add_new_multi_event_listener c name co))"
  by (simp add: add_new_multi_event_listener_def wf_new_listener wf_ensure_bucket)

lemma wf_add_single: "wf c \<Longrightarrow> wf (fst (add_new_single_event_listener c name co))"
  by (simp add: add_new_single_event_listener_def wf_new_listener wf_ensure_bucket)


lemma call_coro_fields [simp]:
  "active_listeners (call_coro run c name n a k) = active_listeners c"
  "store (call_coro run c name n a k) = store c"
  "next_id (call_coro run c name n a k) = next_id c"
  by (simp_all add: call_coro_def Let_def split: option.splits)

lemma listener_call_multi:
  assumes "store c i = Some l" "kind l = Multi"
  shows "snd (listener_call run c i p a k) = None"
    and "active_listeners (fst (listener_call run c i p a k)) = active_listeners c"
    and "store (fst (listener_call run c i p a k)) = store c"
    and "next_id (fst (listener_call run c i p a k)) = next_id c"
  using assms by (simp_all add: listener_call_def multi_dispatch_def Let_def split: coro.splits)


lemma listener_call_single:
  assumes "store c i = Some l" "kind l = Single"
    and "active_listeners c (event_name l) = Some b" "i \<in> set b"
  shows "snd (listener_call run c i p a k) = None"
    and "active_listeners (fst (listener_call run c i p a k)) =
           (active_listeners c)(event_name l \<mapsto> remove1 i b)"
    and "store (fst (listener_call run c i p a k)) = (store c)(i \<mapsto> fired l p a k)"
    and "next_id (fst (listener_call run c i p a k)) = next_id c"
  using assms
  by (auto simp: listener_call_def single_dispatch_def remove_listener_def get_truthy_def fired_def
      Let_def split: coro.splits)



lemma linfo_listener_call: "linfo (fst (listener_call run c i p a k)) j = linfo c j"
  by (auto simp: linfo_def listener_call_def single_dispatch_def multi_dispatch_def
      remove_listener_def get_truthy_def Let_def split: option.splits kind.splits coro.splits sum.splits)

lemma gather_Cons_fst:
  "fst (gather run c (i # is) p a k) = fst (gather run (fst (listener_call run c i p a k)) is p a k)"
  by (simp split: prod.splits)

lemma gather_Cons_snd:
  "snd (gather run c (i # is) p a k) =
     (case snd (listener_call run c i p a k) of
        Some e \<Rightarrow> Some e
      | None \<Rightarrow> snd (gather run (fst (listener_call run c i p a k)) is p a k))"
  by (auto split: prod.splits option.splits)

lemma linfo_gather: "linfo (fst (gather run c is p a k)) j = linfo c j"
proof (induction "is" arbitrary: c)
  case Nil
  then show ?case by simp
next
  case (Cons i "is")
  show ?case
    unfolding gather_Cons_fst by (simp add: Cons.IH linfo_listener_call)
qed



lemma is_single_linfo: "is_single c i \<longleftrightarrow> (\<exists>co n. linfo c i = Some (Single, co, n))"
  by (auto simp: is_single_def linfo_def split: option.splits)

lemma listener_call_wf:
  assumes "wf c" "active_listeners c name = Some b" "i \<in> set b"
  shows "snd (listener_call run c i p a k) = None"
    and "active_listeners (fst (listener_call run c i p a k)) =
           (active_listeners c)(name \<mapsto> (if is_single c i then remove1 i b else b))"
    and "store (fst (listener_call run c i p a k)) = (store c)(i := map_option (upd p a k) (store c i))"
    and "next_id (fst (listener_call run c i p a k)) = next_id c"
proof -
  from assms obtain l where l: "store c i = Some l" "event_name l = name"
    unfolding wf_def by blast
  show "snd (listener_call run c i p a k) = None"
    using l assms listener_call_single(1)[of c i l b] listener_call_multi(1)[of c i l]
    by (cases "kind l") auto
  show "active_listeners (fst (listener_call run c i p a k)) =
           (active_listeners c)(name \<mapsto> (if is_single c i then remove1 i b else b))"
    using l assms listener_call_single(2)[of c i l b] listener_call_multi(2)[of c i l]
    by (cases "kind l") (auto simp: is_single_def)
  show "store (fst (listener_call run c i p a k)) = (store c)(i := map_option (upd p a k) (store c i))"
    using l assms listener_call_single(3)[of c i l b] listener_call_multi(3)[of c i l]
    by (cases "kind l") (auto simp: upd_def)
  show "next_id (fst (listener_call run c i p a k)) = next_id c"
    using l assms listener_call_single(4)[of c i l b] listener_call_multi(4)[of c i l]
    by (cases "kind l") auto
qed

lemma upd_names [simp]: "event_name (upd p a k l) = event_name l" "kind (upd p a k l) = kind l"
  "coro (upd p a k l) = coro l"
  by (auto simp: upd_def fired_def split: coro.splits)

lemma wf_linfo:
  "wf c \<longleftrightarrow>
     (\<forall>name ids. active_listeners c name = Some ids \<longrightarrow>
        distinct ids \<and> (\<forall>i\<in>set ids. i < next_id c \<and> (\<exists>kd co. linfo c i = Some (kd, co, name))))"
  unfolding wf_def linfo_def by (simp add: ex_simps[symmetric] del: ex_simps)

lemma wf_shrink:
  assumes "wf c" "\<And>j. linfo c' j = linfo c j" "next_id c' = next_id c"
    and "\<And>name ids'. active_listeners c' name = Some ids' \<Longrightarrow>
           \<exists>ids. active_listeners c name = Some ids \<and> distinct ids' \<and> set ids' \<subseteq> set ids"
  shows "wf c'"
  unfolding wf_linfo
proof (intro allI impI)
  fix name ids' assume a: "active_listeners c' name = Some ids'"
  from assms(4)[OF a] obtain ids where ids: "active_listeners c name = Some ids"
    "distinct ids'" "set ids' \<subseteq> set ids" by blast
  from assms(1) ids(1) have "\<forall>i\<in>set ids. i < next_id c \<and> (\<exists>kd co. linfo c i = Some (kd, co, name))"
    unfolding wf_linfo by blast
  with ids show "distinct ids' \<and> (\<forall>i\<in>set ids'. i < next_id c' \<and> (\<exists>kd co. linfo c' i = Some (kd, co, name)))"
    using assms(2,3) by auto
qed

lemma listener_call_preserves_wf:
  assumes "wf c" "active_listeners c name = Some b" "i \<in> set b"
  shows "wf (fst (listener_call run c i p a k))"
proof (rule wf_shrink[OF assms(1)])
  show "linfo (fst (listener_call run c i p a k)) j = linfo c j" for j
    by (rule linfo_listener_call)
  show "next_id (fst (listener_call run c i p a k)) = next_id c"
    by (rule listener_call_wf(4)[OF assms])
  fix n ids' assume "active_listeners (fst (listener_call run c i p a k)) n = Some ids'"
  moreover have "distinct b" using assms(1,2) unfolding wf_def by blast
  ultimately show "\<exists>ids. active_listeners c n = Some ids \<and> distinct ids' \<and> set ids' \<subseteq> set ids"
    using assms(1,2) unfolding listener_call_wf(2)[OF assms] wf_def
    by (auto split: if_splits dest: notin_set_remove1)
qed


lemma gather_wf:
  assumes "wf c" "active_listeners c name = Some b" "set is \<subseteq> set b" "distinct is"
  shows "snd (gather run c is p a k) = None \<and>
         wf (fst (gather run c is p a k)) \<and>
         next_id (fst (gather run c is p a k)) = next_id c \<and>
         active_listeners (fst (gather run c is p a k)) =
           (active_listeners c)(name \<mapsto> filter (\<lambda>i. \<not> (i \<in> set is \<and> is_single c i)) b) \<and>
         store (fst (gather run c is p a k)) =
           (\<lambda>j. if j \<in> set is then map_option (upd p a k) (store c j) else store c j)"
  using assms
proof (induction "is" arbitrary: c b)
  case Nil
  then show ?case by (auto simp: fun_eq_iff)
next
  case (Cons i "is")
  let ?c1 = "fst (listener_call run c i p a k)"
  let ?b1 = "if is_single c i then remove1 i b else b"
  have ib: "i \<in> set b" using Cons.prems by simp
  have db: "distinct b" using Cons.prems(1,2) unfolding wf_def by blast
  note st = listener_call_wf[OF Cons.prems(1,2) ib, of run p a k]
  have wf1: "wf ?c1" by (rule listener_call_preserves_wf[OF Cons.prems(1,2) ib])
  have al1: "active_listeners ?c1 name = Some ?b1" by (simp add: st(2))
  have sub1: "set is \<subseteq> set ?b1" using Cons.prems(3,4) db by auto
  have d1: "distinct is" using Cons.prems(4) by simp
  note IH = Cons.IH[OF wf1 al1 sub1 d1]
  have sing: "is_single ?c1 j = is_single c j" for j
    by (simp add: is_single_linfo linfo_listener_call)
  have f: "filter (\<lambda>j. \<not> (j \<in> set is \<and> is_single c j)) ?b1 =
           filter (\<lambda>j. \<not> (j \<in> set (i # is) \<and> is_single c j)) b"
    using db by (auto simp: distinct_remove1_removeAll removeAll_filter_not_eq intro: filter_cong)
  have s: "(\<lambda>j. if j \<in> set is then map_option (upd p a k) (store ?c1 j) else store ?c1 j) =
           (\<lambda>j. if j \<in> set (i # is) then map_option (upd p a k) (store c j) else store c j)"
    using Cons.prems(4) by (auto simp: st(3) fun_eq_iff)
  have u: "(active_listeners ?c1)(name \<mapsto> X) = (active_listeners c)(name \<mapsto> X)" for X
    by (simp add: st(2))
  show ?case
    unfolding gather_Cons_fst gather_Cons_snd
    using IH by (simp only: st(1) st(4) sing f s u option.case)
qed


section \<open>Proofs: what a dispatch records\<close>

lemma coro_of_linfo:
  "coro_of c i =
     (case linfo c i of
        Some (kd, Coroutine n, name) \<Rightarrow> [(n, name)]
      | _ \<Rightarrow> [])"
  by (simp add: coro_of_def linfo_def split: option.splits coro.splits)

lemma coros_cong: "(\<And>j. linfo c' j = linfo c j) \<Longrightarrow> coros c' ids = coros c ids"
proof -
  assume "\<And>j. linfo c' j = linfo c j"
  then have "coro_of c' = coro_of c" by (simp add: fun_eq_iff coro_of_linfo)
  then show ?thesis by (simp add: coros_def)
qed

lemma failures_append [simp]: "failures run a k (xs @ ys) = failures run a k xs @ failures run a k ys"
  by (simp add: failures_def)

lemma coros_Cons: "coros c (i # ids) = coro_of c i @ coros c ids"
  by (simp add: coros_def)

lemma call_coro_traces [simp]:
  "invoked (call_coro run c name n a k) = invoked c"
  "called (call_coro run c name n a k) = called c @ [(n, a, k)]"
  "log (call_coro run c name n a k) = log c @ failures run a k [(n, name)]"
  by (simp_all add: call_coro_def failures_def Let_def split: option.splits)

lemma listener_call_traces:
  "invoked (fst (listener_call run c i p a k)) = invoked c @ [i]"
  "called (fst (listener_call run c i p a k)) = called c @ map (\<lambda>(n, name). (n, a, k)) (coro_of c i)"
  "log (fst (listener_call run c i p a k)) = log c @ failures run a k (coro_of c i)"
  by (auto simp: listener_call_def single_dispatch_def multi_dispatch_def remove_listener_def
      coro_of_def failures_def Let_def
      split: option.splits kind.splits coro.splits sum.splits)

lemma gather_traces:
  "invoked (fst (gather run c is p a k)) = invoked c @ is \<and>
   called (fst (gather run c is p a k)) = called c @ map (\<lambda>(n, name). (n, a, k)) (coros c is) \<and>
   log (fst (gather run c is p a k)) = log c @ failures run a k (coros c is)"
proof (induction "is" arbitrary: c)
  case Nil
  show ?case by (simp add: coros_def failures_def)
next
  case (Cons i "is")
  have "coros (fst (listener_call run c i p a k)) is = coros c is"
    by (rule coros_cong) (rule linfo_listener_call)
  then show ?case
    unfolding gather_Cons_fst
    by (simp add: Cons.IH listener_call_traces coros_Cons)
qed

lemma get_truthy_bucket:
  "get_truthy c (replace_on name) = (if bucket c name = [] then None else Some (bucket c name))"
  by (simp add: get_truthy_def bucket_def split: option.splits)

lemma dispatch_gather: "dispatch run c name p a k = gather run c (bucket c name) p a k"
  by (simp add: dispatch_def get_truthy_bucket)

lemma linfo_dispatch: "linfo (fst (dispatch run c name p a k)) j = linfo c j"
  by (simp add: dispatch_gather linfo_gather)

lemma dispatch_wf:
  assumes "wf c"
  shows "snd (dispatch run c name p a k) = None \<and>
         wf (fst (dispatch run c name p a k)) \<and>
         next_id (fst (dispatch run c name p a k)) = next_id c \<and>
         (\<forall>n. bucket (fst (dispatch run c name p a k)) n =
              (if replace_on n = replace_on name
               then filter (\<lambda>i. \<not> is_single c i) (bucket c name) else bucket c n)) \<and>
         store (fst (dispatch run c name p a k)) =
           (\<lambda>j. if j \<in> set (bucket c name) then map_option (upd p a k) (store c j) else store c j)"
proof (cases "active_listeners c (replace_on name)")
  case None
  then show ?thesis using assms by (simp add: dispatch_gather bucket_def)
next
  case (Some b)
  then have b: "bucket c name = b" by (simp add: bucket_def)
  have d: "distinct b" using assms Some unfolding wf_def by blast
  have f: "filter (\<lambda>i. \<not> (i \<in> set b \<and> is_single c i)) b = filter (\<lambda>i. \<not> is_single c i) b"
    by (auto intro: filter_cong)
  from gather_wf[OF assms Some subset_refl d, of run p a k] show ?thesis
    unfolding dispatch_gather b f by (auto simp: bucket_def Some)
qed

section \<open>Proofs: registration and names\<close>


lemma register_facts:
  fixes kd nm co c
  defines "r \<equiv> new_listener kd (ensure_bucket c nm) nm co"
  shows "snd r = next_id c"
    and "store (fst r) = (store c)(next_id c \<mapsto>
            \<lparr>kind = kd, coro = co, event_name = nm, dispatched = False,
             event_data = PyNone, largs = PyNone, lkwargs = PyNone\<rparr>)"
    and "active_listeners (fst r) n =
           (if n = nm then Some ((case active_listeners c nm of Some ids \<Rightarrow> ids | None \<Rightarrow> []) @ [next_id c])
            else active_listeners c n)"
    and "next_id (fst r) = Suc (next_id c)"
    and "invoked (fst r) = invoked c" "called (fst r) = called c" "log (fst r) = log c"
  unfolding r_def
  by (auto simp: new_listener_def ensure_bucket_def add_listener_def get_truthy_def Let_def
      split: option.splits)

lemma fresh_not_in_bucket: "wf c \<Longrightarrow> active_listeners c n = Some ids \<Longrightarrow> next_id c \<notin> set ids"
  unfolding wf_def by fastforce

lemma register_bucket:
  assumes "wf c"
  shows "next_id c \<in> set (bucket (fst (new_listener kd (ensure_bucket c nm) nm co)) b)
           \<longleftrightarrow> replace_on b = nm"
  using fresh_not_in_bucket[OF assms]
  by (auto simp: bucket_def register_facts(3) split: option.splits)

lemma invoked_dispatch: "invoked (fst (dispatch run c name p a k)) = invoked c @ bucket c name"
  by (simp add: dispatch_gather gather_traces)


lemma replace_on_occurrence: "replace_on (xs @ ''on_'' @ ys) = replace_on xs @ replace_on ys"
  by (induction xs rule: replace_on.induct) auto


section \<open>Proofs: a waiting one-shot listener\<close>



lemma in_bucket_name:
  "wf c \<Longrightarrow> i \<in> set (bucket c b) \<Longrightarrow> \<exists>l. store c i = Some l \<and> event_name l = replace_on b"
proof -
  assume w: "wf c" and i: "i \<in> set (bucket c b)"
  show ?thesis
  proof (cases "active_listeners c (replace_on b)")
    case None
    then show ?thesis using i by (simp add: bucket_def)
  next
    case (Some ids)
    then have "i \<in> set ids" using i by (simp add: bucket_def)
    with w Some show ?thesis unfolding wf_def by blast
  qed
qed












lemma wait_for_pending:
  assumes "wf c"
  shows "pending (fst (add_new_single_event_listener c nm co)) (next_id c) nm
           \<lparr>kind = Single, coro = co, event_name = replace_on nm, dispatched = False,
             event_data = PyNone, largs = PyNone, lkwargs = PyNone\<rparr>"
  unfolding pending_def add_new_single_event_listener_def
  using wf_add_single[OF assms, of nm co] register_bucket[OF assms, of Single "replace_on nm" co nm]
  by (simp add: add_new_single_event_listener_def register_facts)


lemma poll_one_sleep:
  assumes "pending c lid e l"
  shows "snd (poll run c lid [[(b, p, a, k)]]) = fst (dispatch run c b p a k)"
  using assms by (simp add: pending_def split: option.splits)

lemmas reg_defs = add_new_multi_event_listener_def
      add_new_single_event_listener_def new_listener_def ensure_bucket_def add_listener_def
      get_truthy_def new_client_def Let_def


section \<open>Proofs: the keep-alive loop\<close>


lemma stop_inactive [simp]: "\<not> ka_active (stop ka)"
  by (simp add: stop_def Let_def split: option.splits)






lemma started_apply_action [simp]:
  "length (started (apply_action ka act)) = length (started ka)"
  by (cases act) (simp_all add: apply_action_def stop_def Let_def split: option.splits)

lemma started_foldl [simp]:
  "length (started (foldl apply_action ka acts)) = length (started ka)"
  by (induction acts arbitrary: ka) simp_all



lemma stop_no_task [simp]: "ka_task (stop ka) = None"
  by (simp add: stop_def Let_def split: option.splits)


lemma started_bound:
  "length (started (snd (run_loop net ka schedule))) \<le> length (started ka) + Suc (length schedule)"
proof (induction schedule arbitrary: ka)
  case Nil
  show ?case by (simp add: create_task_def Let_def split: option.splits)
next
  case (Cons s schedule)
  obtain acts w where s: "s = (acts, w)" by (cases s)
  have "length (started (snd (run_loop net (foldl apply_action (create_task net ka) acts) schedule)))
      \<le> Suc (length (started ka)) + Suc (length schedule)"
    using Cons.IH[of "foldl apply_action (create_task net ka) acts"]
    by (simp add: create_task_def Let_def)
  then show ?case unfolding s
    by (simp add: Let_def create_task_def split: option.splits wake.splits)
qed


lemma run_loop_raises: "fst (run_loop net ka schedule) = Raised e \<Longrightarrow> e = TypeError"
proof (induction schedule arbitrary: ka)
  case Nil
  then show ?case by (simp split: if_splits option.splits)
next
  case (Cons s schedule)
  obtain acts w where s: "s = (acts, w)" by (cases s)
  show ?case using Cons.prems Cons.IH unfolding s
    by (auto simp: Let_def split: if_splits option.splits wake.splits)
qed




section \<open>Proofs: the handshake\<close>

lemma frame_ofD:
  "frame_of m = Some x \<Longrightarrow> \<exists>j. m = TEXT (Some j) \<and> json m = Inr j \<and> extract_event j = Inr x"
  by (auto simp: frame_of_def json_def split: wsmsg.splits option.splits sum.splits)

lemma init_body_ok:
  assumes "init_body ops w q m = (None, w1, q1)"
  shows "frame_of m \<noteq> None"
    and "w1 = w\<lparr>trace := trace w @ [Received m], storage := apply_join ops (storage w) m\<rparr>"
    and "q1 = q @ (if is_house_join m then [] else [m])"
  using assms
  by (auto simp: init_body_def wait_for_event_init_def received_init_event_def frame_of_def
      apply_join_def is_house_join_def json_def extract_event_def
      split: wsmsg.splits option.splits sum.splits if_splits prod.splits)


lemma apply_joins_Cons: "apply_joins ops s (m # ms) = apply_joins ops (apply_join ops s m) ms"
  by (simp add: apply_joins_def)

lemma apply_joins_Nil [simp]: "apply_joins ops s [] = s"
  by (simp add: apply_joins_def)

lemma init_loop_returned:
  assumes "init_loop ops hm w q inbox = (Returned (), w3, q3, rest)"
  shows "\<exists>consumed. inbox = consumed @ rest \<and>
           (\<forall>m\<in>set consumed. frame_of m \<noteq> None) \<and>
           q3 = q @ filter (\<lambda>m. \<not> is_house_join m) consumed \<and>
           w3 = w\<lparr>trace := trace w @ map Received consumed,
                  storage := apply_joins ops (storage w) consumed\<rparr> \<and>
           py_len hm = Inr (houses_len ops (storage w3)) \<and>
           (\<forall>k<length consumed.
              py_len hm \<noteq> Inr (houses_len ops (apply_joins ops (storage w) (take k consumed))))"
  using assms
proof (induction inbox arbitrary: w q)
  case Nil
  then show ?case by (auto split: sum.splits if_splits)
next
  case (Cons m ms)
  from Cons.prems obtain n where n: "py_len hm = Inr n" by (auto split: sum.splits)
  show ?case
  proof (cases "n = houses_len ops (storage w)")
    case True
    with Cons.prems n have "w3 = w" "q3 = q" "rest = m # ms" by auto
    with True n show ?thesis by (intro exI[of _ "[]"]) simp
  next
    case False
    with Cons.prems n obtain w1 q1 where b: "init_body ops w q m = (None, w1, q1)"
      and l: "init_loop ops hm w1 q1 ms = (Returned (), w3, q3, rest)"
      by (auto split: prod.splits option.splits)
    note ok = init_body_ok[OF b]
    from Cons.IH[OF l] obtain c where c: "ms = c @ rest" "\<forall>m\<in>set c. frame_of m \<noteq> None"
      "q3 = q1 @ filter (\<lambda>m. \<not> is_house_join m) c"
      "w3 = w1\<lparr>trace := trace w1 @ map Received c, storage := apply_joins ops (storage w1) c\<rparr>"
      "py_len hm = Inr (houses_len ops (storage w3))"
      "\<forall>k<length c. py_len hm \<noteq> Inr (houses_len ops (apply_joins ops (storage w1) (take k c)))"
      by blast
    have k: "py_len hm \<noteq> Inr (houses_len ops (apply_joins ops (storage w) (take k (m # c))))"
      if "k < length (m # c)" for k
    proof (cases k)
      case 0
      then show ?thesis using False n by simp
    next
      case (Suc k')
      then show ?thesis using that c(6) ok(2) by (simp add: apply_joins_Cons)
    qed
    show ?thesis
      apply (rule exI[of _ "m # c"])
      using c(1-5) ok k by (auto simp: apply_joins_Cons)
  qed
qed

lemma init_loop_suspended:
  assumes "py_len hm = Inr n" "\<forall>m\<in>set inbox. frame_of m \<noteq> None"
    and "\<forall>k\<le>length inbox. houses_len ops (apply_joins ops (storage w) (take k inbox)) \<noteq> n"
  shows "fst (init_loop ops hm w q inbox) = Suspended"
  using assms
proof (induction inbox arbitrary: w q)
  case Nil
  then show ?case by auto
next
  case (Cons m ms)
  from Cons.prems(2) obtain op ev d where f: "frame_of m = Some (op, ev, d)" by auto
  then obtain j where j: "m = TEXT (Some j)" "extract_event j = Inr (op, ev, d)"
    using frame_ofD by blast
  then have g: "py_get j ''op'' = Inr op"
    by (auto simp: extract_event_def split: sum.splits)
  have b: "init_body ops w q m =
      (None, w\<lparr>trace := trace w @ [Received m], storage := apply_join ops (storage w) m\<rparr>,
       q @ (if is_house_join m then [] else [m]))"
    using j g f
    by (simp add: init_body_def wait_for_event_init_def received_init_event_def json_def
        apply_join_def is_house_join_def)
  have 0: "houses_len ops (storage w) \<noteq> n" using Cons.prems(3)[rule_format, of 0] by simp
  have s: "\<forall>k\<le>length ms. houses_len ops (apply_joins ops
       (storage (w\<lparr>trace := trace w @ [Received m], storage := apply_join ops (storage w) m\<rparr>))
       (take k ms)) \<noteq> n"
  proof (intro allI impI)
    fix k assume "k \<le> length ms"
    then show "houses_len ops (apply_joins ops
       (storage (w\<lparr>trace := trace w @ [Received m], storage := apply_join ops (storage w) m\<rparr>))
       (take k ms)) \<noteq> n"
      using Cons.prems(3)[rule_format, of "Suc k"] by (simp add: apply_joins_Cons)
  qed
  have "fst (init_loop ops hm (w\<lparr>trace := trace w @ [Received m], storage := apply_join ops (storage w) m\<rparr>)
      (q @ (if is_house_join m then [] else [m])) ms) = Suspended"
    using Cons.prems(1,2) s by (intro Cons.IH) auto
  then show ?case using Cons.prems(1) 0 b by simp
qed


lemma received_message_plain:
  assumes "frame_of m \<noteq> None" "\<not> is_init_state m"
  shows "\<exists>w1. received_message n ops w m inbox = Some (Returned (), w1, inbox) \<and>
           trace w1 = trace w @ replayed m \<and> storage w1 = storage w"
proof -
  from assms(1) obtain op ev d where f: "frame_of m = Some (op, ev, d)" by auto
  then obtain j where j: "json m = Inr j" "extract_event j = Inr (op, ev, d)"
    using frame_ofD by blast
  show ?thesis
    using assms(2) f j
    by (auto simp: received_message_def received_message_with_def replayed_def is_init_state_def)
qed

lemma replay_plain:
  assumes "\<forall>m\<in>set q. frame_of m \<noteq> None \<and> \<not> is_init_state m"
  shows "\<exists>w'. replay n ops w q inbox = Some (Returned (), w', inbox) \<and>
           trace w' = trace w @ concat (map replayed q) \<and> storage w' = storage w"
  using assms
proof (induction q arbitrary: w)
  case Nil
  show ?case by (simp add: replay_def)
next
  case (Cons m q)
  from Cons.prems have m: "frame_of m \<noteq> None" "\<not> is_init_state m" by auto
  from received_message_plain[OF m, of n ops w inbox] obtain w1 where
    w1: "received_message n ops w m inbox = Some (Returned (), w1, inbox)"
    "trace w1 = trace w @ replayed m" "storage w1 = storage w" by blast
  from Cons.IH[of w1] Cons.prems obtain w' where
    w': "replay n ops w1 q inbox = Some (Returned (), w', inbox)"
    "trace w' = trace w1 @ concat (map replayed q)" "storage w' = storage w1" by auto
  show ?case
    using w1 w' by (auto simp: replay_def)
qed

lemmas handshake_defs = cache_ops_def connected_def house_join_def message_create_def
  event_frame_def init_state_def init_body_def wait_for_event_init_def received_init_event_def
  json_def extract_event_def py_get_def py_get_default_def py_item_def py_len_def
  EVENT_def CONNECTION_START_def

lemma two_houses_loop:
  "init_loop cache_ops (PyDict [(''h1'', PyDict []), (''h2'', PyDict [])])
     ((connected [])\<lparr>trace := trace (connected []) @ [CallListeners ''init''],
        storage := update_all cache_ops
          (PyDict [(''house_memberships'', PyDict [(''h1'', PyDict []), (''h2'', PyDict [])])])
          (storage (connected []))\<rparr>) []
     [house_join ''h1'', message_create ''hi'', house_join ''h2'', message_create ''later''] =
   (Returned (),
    \<lparr>is_open = True, is_ready = False, connection_start_set = True, startup_time_set = False,
      storage = [PyStr ''h1'', PyStr ''h2''],
      trace = [CallListeners ''init'', Received (house_join ''h1''),
               Received (message_create ''hi''), Received (house_join ''h2'')]\<rparr>,
    [message_create ''hi''], [message_create ''later''])"
  by (simp add: handshake_defs)

lemma two_houses_loop_plain:
  "init_loop cache_ops (PyDict [(''h1'', PyDict []), (''h2'', PyDict [])]) (connected []) []
     [house_join ''h1'', message_create ''hi'', house_join ''h2'', message_create ''later''] =
   (Returned (),
    \<lparr>is_open = True, is_ready = False, connection_start_set = True, startup_time_set = False,
      storage = [PyStr ''h1'', PyStr ''h2''],
      trace = [Received (house_join ''h1''), Received (message_create ''hi''),
               Received (house_join ''h2'')]\<rparr>,
    [message_create ''hi''], [message_create ''later''])"
  by (simp add: handshake_defs)

lemma init_body_frame:
  assumes "frame_of m \<noteq> None"
  shows "init_body ops w q m =
      (None, w\<lparr>trace := trace w @ [Received m], storage := apply_join ops (storage w) m\<rparr>,
       q @ (if is_house_join m then [] else [m]))"
proof -
  from assms obtain op ev d where f: "frame_of m = Some (op, ev, d)" by auto
  then obtain j where j: "m = TEXT (Some j)" "extract_event j = Inr (op, ev, d)"
    using frame_ofD by blast
  then have g: "py_get j ''op'' = Inr op"
    by (auto simp: extract_event_def split: sum.splits)
  show ?thesis
    using j g f
    by (simp add: init_body_def wait_for_event_init_def received_init_event_def json_def
        apply_join_def is_house_join_def)
qed

lemma init_loop_exits_when_equal:
  assumes "py_len hm = Inr n" "k \<le> length inbox"
    and "\<forall>m\<in>set (take k inbox). frame_of m \<noteq> None"
    and "houses_len ops (apply_joins ops (storage w) (take k inbox)) = n"
    and "\<forall>i<k. houses_len ops (apply_joins ops (storage w) (take i inbox)) \<noteq> n"
  shows "init_loop ops hm w q inbox =
      (Returned (),
       w\<lparr>trace := trace w @ map Received (take k inbox),
         storage := apply_joins ops (storage w) (take k inbox)\<rparr>,
       q @ filter (\<lambda>m. \<not> is_house_join m) (take k inbox),
       drop k inbox)"
  using assms
proof (induction inbox arbitrary: w q k)
  case Nil
  then show ?case by simp
next
  case (Cons m ms)
  show ?case
  proof (cases k)
    case 0
    with Cons.prems show ?thesis by simp
  next
    case (Suc k')
    have 0: "houses_len ops (storage w) \<noteq> n"
      using Cons.prems(5)[rule_format, of 0] Suc by simp
    have fm: "frame_of m \<noteq> None" using Cons.prems(3) Suc by simp
    let ?w1 = "w\<lparr>trace := trace w @ [Received m], storage := apply_join ops (storage w) m\<rparr>"
    let ?q1 = "q @ (if is_house_join m then [] else [m])"
    have a: "k' \<le> length ms" using Cons.prems(2) Suc by simp
    have b: "\<forall>m\<in>set (take k' ms). frame_of m \<noteq> None" using Cons.prems(3) Suc by simp
    have c: "houses_len ops (apply_joins ops (storage ?w1) (take k' ms)) = n"
      using Cons.prems(4) Suc by (simp add: apply_joins_Cons)
    have d: "\<forall>i<k'. houses_len ops (apply_joins ops (storage ?w1) (take i ms)) \<noteq> n"
    proof (intro allI impI)
      fix i assume "i < k'"
      then show "houses_len ops (apply_joins ops (storage ?w1) (take i ms)) \<noteq> n"
        using Cons.prems(5)[rule_format, of "Suc i"] Suc by (simp add: apply_joins_Cons)
    qed
    note IH = Cons.IH[OF Cons.prems(1) a b c d, of ?q1]
    show ?thesis
      using Cons.prems(1) 0 IH Suc
      by (simp add: init_body_frame[OF fm] apply_joins_Cons)
  qed
qed

subsection \<open>A bound above the number of messages always suffices\<close>

lemma init_loop_rest_length:
  "init_loop ops hm w q inbox = (r, w3, q3, rest) \<Longrightarrow> length rest \<le> length inbox"
proof (induction inbox arbitrary: w q)
  case Nil
  then show ?case by (auto split: sum.splits if_splits)
next
  case (Cons m ms)
  then show ?case
    by (fastforce split: sum.splits if_splits prod.splits option.splits)
qed

lemma shrinking_message: "shrinking init \<Longrightarrow> shrinking (received_message_with init)"
  unfolding shrinking_def received_message_with_def
  by (auto split: sum.splits prod.splits if_splits)

lemma shrinking_replay: "shrinking handle \<Longrightarrow> shrinking (replay_with handle)"
  unfolding shrinking_def
proof (intro allI impI)
  fix w q inbox r w' inbox'
  assume h: "\<forall>w x inbox r w' inbox'. handle w x inbox = Some (r, w', inbox') \<longrightarrow> length inbox' \<le> length inbox"
    and "replay_with handle w q inbox = Some (r, w', inbox')"
  then show "length inbox' \<le> length inbox"
  proof (induction q arbitrary: w inbox)
    case Nil
    then show ?case by simp
  next
    case (Cons m q)
    from Cons.prems(2) obtain r1 w1 inbox1 where 1: "handle w m inbox = Some (r1, w1, inbox1)"
      by (auto split: option.splits)
    with Cons.prems(1) have l: "length inbox1 \<le> length inbox" by blast
    show ?case
    proof (cases r1)
      case (Returned u)
      with Cons.prems(2) 1 have "replay_with handle w1 q inbox1 = Some (r, w', inbox')" by simp
      from Cons.IH[OF Cons.prems(1) this] l show ?thesis by simp
    next
      case (Raised e)
      with Cons.prems(2) 1 l show ?thesis by simp
    next
      case Suspended
      with Cons.prems(2) 1 l show ?thesis by simp
    qed
  qed
qed

lemma shrinking_init: "shrinking (received_init n ops)"
proof (induction n)
  case 0
  show ?case by (simp add: shrinking_def)
next
  case (Suc n)
  note rp = shrinking_replay[OF shrinking_message[OF Suc], unfolded shrinking_def, rule_format]
  show ?case
    unfolding shrinking_def
  proof (intro allI impI)
    fix w msg inbox r w' inbox'
    assume a: "received_init (Suc n) ops w msg inbox = Some (r, w', inbox')"
    show "length inbox' \<le> length inbox"
    proof (cases "py_item msg ''d''")
      case (Inl e)
      with a show ?thesis by simp
    next
      case (Inr data)
      show ?thesis
      proof (cases "py_get_default data ''house_memberships'' (PyDict [])")
        case (Inl e)
        with a Inr show ?thesis by simp
      next
        case hm: (Inr hm)
        obtain r3 w3 q3 rest where l: "init_loop ops hm
            (w\<lparr>trace := trace w @ [CallListeners ''init''],
               storage := update_all ops data (storage w)\<rparr>) [] inbox = (r3, w3, q3, rest)"
          by (metis prod_cases4)
        note len = init_loop_rest_length[OF l]
        show ?thesis
        proof (cases r3)
          case (Returned u)
          with a Inr hm l obtain r4 w4 inbox4 where
            4: "replay_with (received_message_with (received_init n ops)) w3 q3 rest = Some (r4, w4, inbox4)"
            and i: "inbox' = inbox4"
            by (auto split: option.splits outcome.splits)
          from rp[OF 4] len i show ?thesis by simp
        next
          case (Raised e)
          with a Inr hm l len show ?thesis by simp
        next
          case Suspended
          with a Inr hm l len show ?thesis by simp
        qed
      qed
    qed
  qed
qed


lemma total_message: "total_below k init \<Longrightarrow> total_below k (received_message_with init)"
  unfolding total_below_def received_message_with_def
  by (auto split: sum.splits prod.splits if_splits)

lemma total_replay:
  assumes "total_below k handle" "shrinking handle"
  shows "total_below k (replay_with handle)"
  unfolding total_below_def
proof (intro allI impI)
  fix w q and inbox :: "wsmsg list"
  assume "length inbox < k"
  then show "replay_with handle w q inbox \<noteq> None"
  proof (induction q arbitrary: w inbox)
    case Nil
    show ?case by simp
  next
    case (Cons m q)
    from assms(1) Cons.prems obtain r1 w1 inbox1 where
      1: "handle w m inbox = Some (r1, w1, inbox1)"
      unfolding total_below_def by (metis option.exhaust prod_cases3)
    from assms(2) 1 have "length inbox1 \<le> length inbox" unfolding shrinking_def by blast
    with Cons.prems have "length inbox1 < k" by simp
    from Cons.IH[OF this] 1 show ?case by (cases r1) simp_all
  qed
qed

lemma received_init_enough_fuel: "total_below n (received_init n ops)"
proof (induction n)
  case 0
  show ?case by (simp add: total_below_def)
next
  case (Suc n)
  have rp: "total_below n (replay_with (received_message_with (received_init n ops)))"
    by (intro total_replay total_message Suc shrinking_message shrinking_init)
  show ?case
    unfolding total_below_def
  proof (intro allI impI)
    fix w msg and inbox :: "wsmsg list"
    assume len: "length inbox < Suc n"
    show "received_init (Suc n) ops w msg inbox \<noteq> None"
    proof (cases "py_item msg ''d''")
      case (Inl e)
      then show ?thesis by simp
    next
      case (Inr data)
      show ?thesis
      proof (cases "py_get_default data ''house_memberships'' (PyDict [])")
        case (Inl e)
        with Inr show ?thesis by simp
      next
        case hm: (Inr hm)
        obtain r3 w3 q3 rest where l: "init_loop ops hm
            (w\<lparr>trace := trace w @ [CallListeners ''init''],
               storage := update_all ops data (storage w)\<rparr>) [] inbox = (r3, w3, q3, rest)"
          by (metis prod_cases4)
        show ?thesis
        proof (cases r3)
          case (Returned u)
          have "replay_with (received_message_with (received_init n ops)) w3 q3 rest \<noteq> None"
          proof (cases q3)
            case Nil
            then show ?thesis by simp
          next
            case (Cons m q)
            have "init_loop ops hm
                (w\<lparr>trace := trace w @ [CallListeners ''init''],
                   storage := update_all ops data (storage w)\<rparr>) [] inbox = (Returned (), w3, q3, rest)"
              using l Returned by simp
            from init_loop_returned[OF this] obtain c where
              c: "inbox = c @ rest" "q3 = [] @ filter (\<lambda>m. \<not> is_house_join m) c" by auto
            with Cons have "c \<noteq> []" by auto
            with c(1) len have "length rest < n" by (cases c) auto
            with rp show ?thesis unfolding total_below_def by blast
          qed
          then show ?thesis using Inr hm l Returned
            by (auto split: outcome.splits)
        next
          case (Raised e)
          with Inr hm l show ?thesis by simp
        next
          case Suspended
          with Inr hm l show ?thesis by simp
        qed
      qed
    qed
  qed
qed

lemma received_init_returns_or_waits:
  "\<exists>res. received_init (Suc (length inbox)) ops w msg inbox = Some res"
  using received_init_enough_fuel[of "Suc (length inbox)" ops]
  unfolding total_below_def by (metis lessI not_Some_eq)

section \<open>Claims about the event handler\<close>

lemma wf_three_listeners: "wf three_listeners"
  unfolding three_listeners_def by (intro wf_add_multi wf_add_single wf_new_client)

lemma three_listeners_eval:
  "bucket three_listeners ''on_ready'' = [0, Suc 0, 2]"
  "coros three_listeners [0, Suc 0, 2] = [(0, ''ready''), (Suc 0, ''ready''), (2, ''ready'')]"
  "is_single three_listeners (Suc 0)"
  by (simp_all add: three_listeners_def add_new_multi_event_listener_def
      add_new_single_event_listener_def new_listener_def ensure_bucket_def add_listener_def
      get_truthy_def new_client_def bucket_def coros_def coro_of_def is_single_def Let_def)

text \<open>
  Claim C2. In a dispatch over a well-formed registry, whatever the callbacks do (\<open>run\<close>
  is arbitrary, so any of them may raise): no exception leaves \<open>dispatch\<close>, every listener
  of the bucket is invoked, every coroutine callback of the bucket is called, in order, and
  each exception a callback raises is logged once under the normalised event name.
\<close>

theorem dispatch_isolates_callback_failure:
  assumes "wf c"
  shows "snd (dispatch run c name p a k) = None \<and>
         invoked (fst (dispatch run c name p a k)) = invoked c @ bucket c name \<and>
         called (fst (dispatch run c name p a k)) =
           called c @ map (\<lambda>(n, nm). (n, a, k)) (coros c (bucket c name)) \<and>
         log (fst (dispatch run c name p a k)) =
           log c @ failures run a k (coros c (bucket c name)) \<and>
         (\<forall>(n, nm)\<in>set (coros c (bucket c name)). nm = replace_on name)"
proof -
  have "nm = replace_on name" if "(n, nm) \<in> set (coros c (bucket c name))" for n nm
  proof -
    from that obtain i where i: "i \<in> set (bucket c name)" "(n, nm) \<in> set (coro_of c i)"
      by (auto simp: coros_def)
    from in_bucket_name[OF assms i(1)] i(2) show ?thesis
      by (auto simp: coro_of_def split: coro.splits)
  qed
  then show ?thesis
    using dispatch_wf[OF assms, of run name p a k]
    by (auto simp: dispatch_gather gather_traces)
qed

theorem dispatch_isolates_callback_failure_witness:
  "wf three_listeners \<and>
   snd (dispatch raising three_listeners ''on_ready'' PyNone [] []) = None \<and>
   invoked (fst (dispatch raising three_listeners ''on_ready'' PyNone [] [])) = [0, Suc 0, 2] \<and>
   called (fst (dispatch raising three_listeners ''on_ready'' PyNone [] [])) =
     [(0, [], []), (Suc 0, [], []), (2, [], [])] \<and>
   log (fst (dispatch raising three_listeners ''on_ready'' PyNone [] [])) =
     [(''ready'', CallbackError ''boom'')]"
proof -
  have i: "invoked three_listeners = []" "called three_listeners = []" "log three_listeners = []"
    by (simp_all add: three_listeners_def add_new_multi_event_listener_def
      add_new_single_event_listener_def register_facts new_client_def)
  show ?thesis
    using dispatch_isolates_callback_failure[OF wf_three_listeners, of raising "''on_ready''" PyNone "[]" "[]"]
    by (simp add: wf_three_listeners three_listeners_eval i failures_def raising_def)
qed

text \<open>
  Claim C4. A one-shot listener in the bucket that a dispatch of \<open>name\<close> reads is, after the
  dispatch, absent from that bucket and has \<open>dispatched\<close> set, whether its callback returns
  or raises (\<open>run\<close> is arbitrary); the dispatch itself raises nothing.
\<close>

theorem single_listener_removed_and_flagged:
  assumes "wf c" "lid \<in> set (bucket c name)" "is_single c lid"
  shows "snd (dispatch run c name p a k) = None \<and>
         lid \<notin> set (bucket (fst (dispatch run c name p a k)) name) \<and>
         (\<exists>l. store (fst (dispatch run c name p a k)) lid = Some l \<and> dispatched l)"
proof -
  obtain l where l: "store c lid = Some l" "kind l = Single"
    using assms(3) by (auto simp: is_single_def split: option.splits)
  have "dispatched (upd p a k l)" using l by (simp add: upd_def fired_def split: coro.splits)
  then show ?thesis
    using dispatch_wf[OF assms(1), of run name p a k] assms(2,3) l by auto
qed

theorem single_listener_removed_and_flagged_witness:
  "wf three_listeners \<and> Suc 0 \<in> set (bucket three_listeners ''on_ready'') \<and> is_single three_listeners (Suc 0) \<and>
   snd (dispatch raising three_listeners ''on_ready'' PyNone [] []) = None \<and>
   Suc 0 \<notin> set (bucket (fst (dispatch raising three_listeners ''on_ready'' PyNone [] [])) ''on_ready'') \<and>
   (\<exists>l. store (fst (dispatch raising three_listeners ''on_ready'' PyNone [] [])) (Suc 0) = Some l \<and> dispatched l)"
proof -
  have h: "Suc 0 \<in> set (bucket three_listeners ''on_ready'')" "is_single three_listeners (Suc 0)"
    by (simp_all add: three_listeners_eval)
  show ?thesis
    using single_listener_removed_and_flagged[OF wf_three_listeners h, of raising PyNone "[]" "[]"]
    by (simp add: wf_three_listeners h)
qed



text \<open>
  Claim C5 as stated fails: \<open>add_new_multi_event_listener\<close> has no membership test, and
  registers a listener under a name that is not in \<open>_events\<close>.
\<close>

theorem unchecked_registration_counterexample:
  "replace_on ''foo'' \<notin> set events \<and>
   active_listeners (fst (add_new_multi_event_listener new_client ''foo'' (Coroutine 0))) ''foo'' = Some [0]"
  by (simp add: reg_defs events_def)

text \<open>
  Claim C5, amended. The \<open>event\<close> decorator applied to a function whose normalised name is
  not in \<open>_events\<close> fails and leaves the registry as it was: with \<open>UnknownEventError\<close> for a
  coroutine function, with \<open>ExpectedAsyncFunction\<close> (tested first) for any other function.
\<close>

theorem event_rejects_unknown_name:
  "replace_on fname \<notin> set events \<Longrightarrow>
     event c fname co =
       (c, Some (if co = NotCoroutine then ExpectedAsyncFunction else UnknownEventError))"
  by (simp add: event_def split: coro.splits)

theorem event_rejects_unknown_name_witness:
  "replace_on ''on_connection_start'' \<notin> set events \<and>
   event new_client ''on_connection_start'' (Coroutine 0) = (new_client, Some UnknownEventError)"
  using event_rejects_unknown_name[of "''on_connection_start''" new_client "Coroutine 0"]
  by (simp add: events_def)





text \<open>
  Claim C10 as stated fails for \<open>wait_for\<close>: the listener of \<open>wait_for('oon_n_ready')\<close> sits
  in the bucket \<open>ready\<close>, a dispatch of the same name reads the bucket \<open>on_ready\<close> and
  invokes nothing, and the waiter stays suspended.
\<close>

theorem double_normalisation_counterexample:
  "replace_on ''oon_n_ready'' = ''on_ready'' \<and>
   bucket (fst (add_new_single_event_listener new_client (replace_on ''oon_n_ready'') NotCoroutine))
     ''ready'' = [0] \<and>
   fst (wait_for quiet new_client ''oon_n_ready'' NotCoroutine
         [[(''oon_n_ready'', PyNone, [], [])]]) = Suspended \<and>
   invoked (snd (wait_for quiet new_client ''oon_n_ready'' NotCoroutine
         [[(''oon_n_ready'', PyNone, [], [])]])) = []"
  by (simp add: wait_for_def reg_defs dispatch_def bucket_def)

text \<open>
  Claim C10, amended. A listener that \<open>add_new_multi_event_listener\<close> or
  \<open>add_new_single_event_listener\<close> registers under \<open>a\<close> is invoked by \<open>dispatch(b)\<close> exactly
  when \<open>replace_on a = replace_on b\<close>; the listener of \<open>wait_for(a)\<close>, whose name is
  normalised twice, exactly when \<open>replace_on (replace_on a) = replace_on b\<close>. The
  normalisation deletes an occurrence of \<open>on_\<close> wherever it stands in the name.
\<close>

theorem invoked_iff_normalised_names_agree:
  assumes "wf c"
  shows "(next_id c \<in> set (drop (length (invoked c))
            (invoked (fst (dispatch run (fst (add_new_multi_event_listener c a co)) b p x k))))
            \<longleftrightarrow> replace_on a = replace_on b) \<and>
         (next_id c \<in> set (drop (length (invoked c))
            (invoked (fst (dispatch run (fst (add_new_single_event_listener c a co)) b p x k))))
            \<longleftrightarrow> replace_on a = replace_on b) \<and>
         (next_id c \<in> set (drop (length (invoked c))
            (invoked (snd (wait_for run c a co [[(b, p, x, k)]]))))
            \<longleftrightarrow> replace_on (replace_on a) = replace_on b) \<and>
         (\<forall>xs ys. replace_on (xs @ ''on_'' @ ys) = replace_on xs @ replace_on ys)"
proof (intro conjI allI)
  show "next_id c \<in> set (drop (length (invoked c))
            (invoked (fst (dispatch run (fst (add_new_multi_event_listener c a co)) b p x k))))
            \<longleftrightarrow> replace_on a = replace_on b"
    using register_bucket[OF assms, of Multi "replace_on a" co b]
    by (auto simp: invoked_dispatch add_new_multi_event_listener_def register_facts)
  show "next_id c \<in> set (drop (length (invoked c))
            (invoked (fst (dispatch run (fst (add_new_single_event_listener c a co)) b p x k))))
            \<longleftrightarrow> replace_on a = replace_on b"
    using register_bucket[OF assms, of Single "replace_on a" co b]
    by (auto simp: invoked_dispatch add_new_single_event_listener_def register_facts)
  have s: "add_new_single_event_listener c (replace_on a) co =
      (fst (add_new_single_event_listener c (replace_on a) co), next_id c)"
    by (simp add: add_new_single_event_listener_def register_facts prod_eq_iff)
  have w: "snd (wait_for run c a co [[(b, p, x, k)]]) =
           fst (dispatch run (fst (add_new_single_event_listener c (replace_on a) co)) b p x k)"
    by (subst wait_for_def, subst s)
       (simp only: prod.case poll_one_sleep[OF wait_for_pending[OF assms]])
  show "next_id c \<in> set (drop (length (invoked c))
            (invoked (snd (wait_for run c a co [[(b, p, x, k)]]))))
            \<longleftrightarrow> replace_on (replace_on a) = replace_on b"
    unfolding w
    using register_bucket[OF assms, of Single "replace_on (replace_on a)" co b]
    by (auto simp: invoked_dispatch add_new_single_event_listener_def register_facts)
  show "replace_on (xs @ ''on_'' @ ys) = replace_on xs @ replace_on ys" for xs ys
    by (rule replace_on_occurrence)
qed

theorem invoked_iff_normalised_names_agree_witness:
  "wf new_client \<and>
   next_id new_client \<in> set (drop (length (invoked new_client))
     (invoked (fst (dispatch raising
        (fst (add_new_multi_event_listener new_client ''on_connection_start'' (Coroutine 0)))
        ''connectistart'' PyNone [] [])))) \<and>
   replace_on (''connecti'' @ ''on_'' @ ''start'') = ''connectistart''"
  using invoked_iff_normalised_names_agree[OF wf_new_client,
      of raising "''on_connection_start''" "Coroutine 0" "''connectistart''" PyNone "[]" "[]"]
  by (simp add: wf_new_client)


section \<open>Claims about the gateway\<close>

text \<open>
  Claim C3. In the model, as in the code, the loop creates the heartbeat task with a
  timeout of 30 and never awaits it: whatever the transport does with the heartbeats,
  \<open>KeepAlive.run\<close> raises neither \<open>RestartSessionError\<close> nor \<open>TimeoutError\<close>. With a first
  write that fails and a second that hangs, the loop goes on and returns normally once the
  connection is no longer open; both failures stay in their task objects.
\<close>

theorem heartbeat_failure_never_surfaces:
  "fst (keepalive_run net ka schedule) \<noteq> Raised RestartSessionError \<and>
   fst (keepalive_run net ka schedule) \<noteq> Raised TimeoutError \<and>
   keepalive_run failing_net live [([], Wakes), ([SetOpen False], Wakes)] =
     (Returned (),
      \<lparr>ka_active = True,
       ka_task = Some 1, heartbeat = Some 30000, ws_open = False,
       started =
         [\<lparr>timeout = 30, task_result = Some RestartSessionError, cancelled = False, cancel_calls = 0\<rparr>,
          \<lparr>timeout = 30, task_result = Some TimeoutError, cancelled = False, cancel_calls = 0\<rparr>]\<rparr>)"
proof (intro conjI)
  show "fst (keepalive_run net ka schedule) \<noteq> Raised RestartSessionError"
    using run_loop_raises[of net "ka\<lparr>ka_active := True\<rparr>" schedule RestartSessionError]
    by (auto simp: keepalive_run_def)
  show "fst (keepalive_run net ka schedule) \<noteq> Raised TimeoutError"
    using run_loop_raises[of net "ka\<lparr>ka_active := True\<rparr>" schedule TimeoutError]
    by (auto simp: keepalive_run_def)
  show "keepalive_run failing_net live [([], Wakes), ([SetOpen False], Wakes)] =
     (Returned (),
      \<lparr>ka_active = True,
       ka_task = Some 1, heartbeat = Some 30000, ws_open = False,
       started =
         [\<lparr>timeout = 30, task_result = Some RestartSessionError, cancelled = False, cancel_calls = 0\<rparr>,
          \<lparr>timeout = 30, task_result = Some TimeoutError, cancelled = False, cancel_calls = 0\<rparr>]\<rparr>)"
    by (simp add: keepalive_run_def live_def failing_net_def create_task_def apply_action_def
        heartbeat_task_def Let_def)
qed

text \<open>
  Claim C7 as stated fails for \<open>send_auth\<close>: a failed write of the auth frame is raised as
  \<open>SessionCreateError\<close>.
\<close>

theorem send_auth_counterexample:
  "send_str broken_socket (PyDict [(''op'', AUTH), (''d'', PyDict [(''token'', PyStr ''t'')])]) =
     Inl (CallbackError ''Cannot write to closing transport'') \<and>
   send_auth broken_socket (PyStr ''t'') = Inl SessionCreateError \<and>
   send_auth broken_socket (PyStr ''t'') \<noteq> Inl RestartSessionError"
  by (simp add: send_auth_def send_str_def broken_socket_def)

text \<open>
  Claim C7, amended. Whenever the transport's write raises, \<open>send_heartbeat\<close> raises
  \<open>RestartSessionError\<close> and \<open>send_auth\<close> raises \<open>SessionCreateError\<close>; neither writes a frame.
\<close>

theorem failed_write_promoted:
  "write_error sock = Some e \<Longrightarrow>
     send_heartbeat sock = Inl RestartSessionError \<and> send_auth sock token = Inl SessionCreateError"
  by (simp add: send_heartbeat_def send_auth_def send_str_def)

theorem failed_write_promoted_witness:
  "write_error broken_socket = Some (CallbackError ''Cannot write to closing transport'') \<and>
   send_heartbeat broken_socket = Inl RestartSessionError \<and>
   send_auth broken_socket (PyStr ''token'') = Inl SessionCreateError"
  using failed_write_promoted[of broken_socket "CallbackError ''Cannot write to closing transport''" "PyStr ''token''"]
  by (simp add: broken_socket_def)



section \<open>Claims about the handshake\<close>

text \<open>
  Claim C1 as stated fails when a queued frame is itself an \<open>INIT_STATE\<close> event: its
  replay enters \<open>received_init\<close> again, and that handshake takes a live frame from the
  socket (here the \<open>HOUSE_JOIN\<close> for \<open>h2\<close>) before the next queued frame (the
  \<open>MESSAGE_CREATE\<close> \<open>a\<close>) is replayed.
\<close>

theorem nested_init_counterexample:
  "map_option fst (received_init (Suc (Suc 0)) cache_ops (connected []) (init_state [''h1''])
      [TEXT (Some (init_state [''h1'', ''h2''])), message_create ''a'', house_join ''h1'',
       house_join ''h2'', message_create ''b'']) = Some (Returned ()) \<and>
   map_option (snd \<circ> snd) (received_init (Suc (Suc 0)) cache_ops (connected []) (init_state [''h1''])
      [TEXT (Some (init_state [''h1'', ''h2''])), message_create ''a'', house_join ''h1'',
       house_join ''h2'', message_create ''b'']) = Some [message_create ''b''] \<and>
   map_option (trace \<circ> fst \<circ> snd) (received_init (Suc (Suc 0)) cache_ops (connected []) (init_state [''h1''])
      [TEXT (Some (init_state [''h1'', ''h2''])), message_create ''a'', house_join ''h1'',
       house_join ''h2'', message_create ''b'']) =
     Some [CallListeners ''init'',
           Received (TEXT (Some (init_state [''h1'', ''h2'']))),
           Received (message_create ''a''),
           Received (house_join ''h1''),
           Handled (TEXT (Some (init_state [''h1'', ''h2'']))),
           CallListeners ''init'',
           Received (house_join ''h2''),
           CallListeners ''ready'',
           Handled (message_create ''a''),
           ParserDispatch (PyStr ''MESSAGE_CREATE'') (PyDict [(''content'', PyStr ''a'')]),
           CallListeners ''ready'']"
  by (simp add: handshake_defs received_message_with_def finish_init_def)

text \<open>
  Claim C1, amended. When the receive loop of a handshake completes and no queued frame is
  an \<open>INIT_STATE\<close> event: the queue holds, in receipt order, exactly the received frames
  whose event name is not \<open>HOUSE_JOIN\<close>; \<open>received_init\<close> does not stay suspended; every
  queued frame then passes through \<open>received_message\<close> in that order, after the last
  receive of the loop and before the ready listeners are called; and no further message
  is taken from the socket (what the loop left is what \<open>received_init\<close> leaves).
\<close>

theorem handshake_replays_queue_in_order:
  assumes "py_item msg ''d'' = Inr data"
    and "py_get_default data ''house_memberships'' (PyDict []) = Inr hm"
    and "init_loop ops hm
           (w\<lparr>trace := trace w @ [CallListeners ''init''],
              storage := update_all ops data (storage w)\<rparr>) [] inbox = (Returned (), w3, q, rest)"
    and "\<forall>m\<in>set q. \<not> is_init_state m"
  shows "\<exists>consumed r w'.
           inbox = consumed @ rest \<and>
           q = filter (\<lambda>m. \<not> is_house_join m) consumed \<and>
           received_init (Suc n) ops w msg inbox = Some (r, w', rest) \<and>
           r \<noteq> Suspended \<and>
           trace w' =
             trace w @ [CallListeners ''init''] @ map Received consumed @
             concat (map replayed q) @ (if r = Returned () then [CallListeners ''ready''] else [])"
proof -
  from init_loop_returned[OF assms(3)] obtain c where c: "inbox = c @ rest"
    "\<forall>m\<in>set c. frame_of m \<noteq> None" "q = filter (\<lambda>m. \<not> is_house_join m) c"
    "trace w3 = trace w @ [CallListeners ''init''] @ map Received c"
    by auto
  have "\<forall>m\<in>set q. frame_of m \<noteq> None \<and> \<not> is_init_state m"
    using c(2,3) assms(4) by auto
  from replay_plain[OF this, of n ops w3 rest] obtain w4 where
    w4: "replay n ops w3 q rest = Some (Returned (), w4, rest)"
    "trace w4 = trace w3 @ concat (map replayed q)" by blast
  have r: "received_init (Suc n) ops w msg inbox =
      Some (fst (finish_init w4), snd (finish_init w4), rest)"
    using assms(1,2,3) w4(1) by (simp add: replay_def received_message_def)
  show ?thesis
    apply (rule exI[of _ c], rule exI[of _ "fst (finish_init w4)"], rule exI[of _ "snd (finish_init w4)"])
    using c(1,3,4) w4(2) r by (simp add: finish_init_def)
qed

theorem handshake_replays_queue_in_order_witness:
  "init_loop cache_ops (PyDict [(''h1'', PyDict []), (''h2'', PyDict [])])
     ((connected [])\<lparr>trace := trace (connected []) @ [CallListeners ''init''],
        storage := update_all cache_ops
          (PyDict [(''house_memberships'', PyDict [(''h1'', PyDict []), (''h2'', PyDict [])])])
          (storage (connected []))\<rparr>) []
     [house_join ''h1'', message_create ''hi'', house_join ''h2'', message_create ''later''] =
   (Returned (),
    \<lparr>is_open = True, is_ready = False, connection_start_set = True, startup_time_set = False,
      storage = [PyStr ''h1'', PyStr ''h2''],
      trace = [CallListeners ''init'', Received (house_join ''h1''),
               Received (message_create ''hi''), Received (house_join ''h2'')]\<rparr>,
    [message_create ''hi''], [message_create ''later'']) \<and>
   (\<exists>consumed r w'.
      [house_join ''h1'', message_create ''hi'', house_join ''h2'', message_create ''later''] =
        consumed @ [message_create ''later''] \<and>
      [message_create ''hi''] = filter (\<lambda>m. \<not> is_house_join m) consumed \<and>
      received_init (Suc 0) cache_ops (connected []) (init_state [''h1'', ''h2''])
        [house_join ''h1'', message_create ''hi'', house_join ''h2'', message_create ''later''] =
        Some (r, w', [message_create ''later'']) \<and>
      r \<noteq> Suspended \<and>
      trace w' =
        trace (connected []) @ [CallListeners ''init''] @ map Received consumed @
        concat (map replayed [message_create ''hi'']) @
        (if r = Returned () then [CallListeners ''ready''] else []))"
proof -
  have d: "py_item (init_state [''h1'', ''h2'']) ''d'' =
      Inr (PyDict [(''house_memberships'', PyDict [(''h1'', PyDict []), (''h2'', PyDict [])])])"
    by (simp add: handshake_defs)
  have h: "py_get_default (PyDict [(''house_memberships'', PyDict [(''h1'', PyDict []), (''h2'', PyDict [])])])
      ''house_memberships'' (PyDict []) = Inr (PyDict [(''h1'', PyDict []), (''h2'', PyDict [])])"
    by (simp add: handshake_defs)
  have i: "\<forall>m\<in>set [message_create ''hi'']. \<not> is_init_state m"
    by (simp add: is_init_state_def frame_of_def handshake_defs)
  show ?thesis
    by (intro conjI, rule two_houses_loop)
       (rule handshake_replays_queue_in_order[OF d h two_houses_loop i, of 0])
qed

text \<open>
  Claim C6 as stated fails when more houses are known than the manifest expects (two
  houses kept from an earlier session, a manifest of one): the count is not less than the
  expected count, and the loop still takes the next frame and waits for more.
\<close>

theorem count_above_manifest_counterexample:
  "py_len (PyDict [(''h1'', PyDict [])]) = Inr 1 \<and>
   \<not> houses_len cache_ops (storage (connected [PyStr ''h1'', PyStr ''h2''])) < 1 \<and>
   init_loop cache_ops (PyDict [(''h1'', PyDict [])]) (connected [PyStr ''h1'', PyStr ''h2'']) []
     [message_create ''hi''] =
     (Suspended,
      \<lparr>is_open = True, is_ready = False, connection_start_set = True, startup_time_set = False,
        storage = [PyStr ''h1'', PyStr ''h2''], trace = [Received (message_create ''hi'')]\<rparr>,
      [message_create ''hi''], [])"
  by (simp add: handshake_defs)

text \<open>
  Claim C6, amended. The receive loop goes on exactly while the number of known houses
  differs from (\<open>!=\<close>) the manifest's length. It exits as soon as the numbers are equal:
  when they are equal after the first \<open>k\<close> frames (and not before), the loop returns having
  taken exactly those \<open>k\<close> frames, with every \<open>HOUSE_JOIN\<close> frame among them applied to the
  storage in order, the others queued, and the rest of the socket untouched; with
  \<open>k = 0\<close> it returns without receiving. Conversely, if it returns, the numbers are equal
  and they differed before each of the consumed frames; if the numbers differ before and
  after every frame the socket delivers, the loop stays suspended.
\<close>

theorem init_loop_runs_while_counts_differ:
  assumes "py_len hm = Inr n"
  shows "(k \<le> length inbox \<and> (\<forall>m\<in>set (take k inbox). frame_of m \<noteq> None) \<and>
          houses_len ops (apply_joins ops (storage w) (take k inbox)) = n \<and>
          (\<forall>i<k. houses_len ops (apply_joins ops (storage w) (take i inbox)) \<noteq> n) \<longrightarrow>
           init_loop ops hm w q inbox =
             (Returned (),
              w\<lparr>trace := trace w @ map Received (take k inbox),
                storage := apply_joins ops (storage w) (take k inbox)\<rparr>,
              q @ filter (\<lambda>m. \<not> is_house_join m) (take k inbox),
              drop k inbox)) \<and>
         (init_loop ops hm w q inbox = (Returned (), w3, q3, rest) \<longrightarrow>
           (\<exists>consumed. inbox = consumed @ rest \<and>
              storage w3 = apply_joins ops (storage w) consumed \<and>
              houses_len ops (storage w3) = n \<and>
              (\<forall>k<length consumed.
                 houses_len ops (apply_joins ops (storage w) (take k consumed)) \<noteq> n))) \<and>
         ((\<forall>m\<in>set inbox. frame_of m \<noteq> None) \<and>
          (\<forall>k\<le>length inbox. houses_len ops (apply_joins ops (storage w) (take k inbox)) \<noteq> n) \<longrightarrow>
           fst (init_loop ops hm w q inbox) = Suspended)"
proof (intro conjI impI)
  assume "k \<le> length inbox \<and> (\<forall>m\<in>set (take k inbox). frame_of m \<noteq> None) \<and>
          houses_len ops (apply_joins ops (storage w) (take k inbox)) = n \<and>
          (\<forall>i<k. houses_len ops (apply_joins ops (storage w) (take i inbox)) \<noteq> n)"
  then show "init_loop ops hm w q inbox =
             (Returned (),
              w\<lparr>trace := trace w @ map Received (take k inbox),
                storage := apply_joins ops (storage w) (take k inbox)\<rparr>,
              q @ filter (\<lambda>m. \<not> is_house_join m) (take k inbox),
              drop k inbox)"
    using init_loop_exits_when_equal[OF assms, of k inbox ops w q] by blast
next
  assume "init_loop ops hm w q inbox = (Returned (), w3, q3, rest)"
  from init_loop_returned[OF this] obtain c where c: "inbox = c @ rest"
    "w3 = w\<lparr>trace := trace w @ map Received c, storage := apply_joins ops (storage w) c\<rparr>"
    "py_len hm = Inr (houses_len ops (storage w3))"
    "\<forall>k<length c. py_len hm \<noteq> Inr (houses_len ops (apply_joins ops (storage w) (take k c)))"
    by blast
  have "houses_len ops (storage w3) = n" using c(3) assms by simp
  moreover have "\<forall>k<length c. houses_len ops (apply_joins ops (storage w) (take k c)) \<noteq> n"
    using c(4) assms by auto
  moreover have "storage w3 = apply_joins ops (storage w) c" using c(2) by simp
  ultimately show "\<exists>consumed. inbox = consumed @ rest \<and>
              storage w3 = apply_joins ops (storage w) consumed \<and>
              houses_len ops (storage w3) = n \<and>
              (\<forall>k<length consumed.
                 houses_len ops (apply_joins ops (storage w) (take k consumed)) \<noteq> n)"
    using c(1) by blast
next
  assume "(\<forall>m\<in>set inbox. frame_of m \<noteq> None) \<and>
          (\<forall>k\<le>length inbox. houses_len ops (apply_joins ops (storage w) (take k inbox)) \<noteq> n)"
  then show "fst (init_loop ops hm w q inbox) = Suspended"
    using init_loop_suspended[OF assms, of inbox ops w q] by blast
qed

theorem init_loop_runs_while_counts_differ_witness:
  "py_len (PyDict [(''h1'', PyDict []), (''h2'', PyDict [])]) = Inr 2 \<and>
   init_loop cache_ops (PyDict [(''h1'', PyDict []), (''h2'', PyDict [])]) (connected []) []
     [house_join ''h1'', message_create ''hi'', house_join ''h2'', message_create ''later''] =
     (Returned (),
      (connected [])\<lparr>trace := trace (connected []) @ map Received
           (take 3 [house_join ''h1'', message_create ''hi'', house_join ''h2'', message_create ''later'']),
         storage := apply_joins cache_ops (storage (connected []))
           (take 3 [house_join ''h1'', message_create ''hi'', house_join ''h2'', message_create ''later''])\<rparr>,
      [] @ filter (\<lambda>m. \<not> is_house_join m)
           (take 3 [house_join ''h1'', message_create ''hi'', house_join ''h2'', message_create ''later'']),
      drop 3 [house_join ''h1'', message_create ''hi'', house_join ''h2'', message_create ''later'']) \<and>
   drop 3 [house_join ''h1'', message_create ''hi'', house_join ''h2'', message_create ''later''] =
     [message_create ''later''] \<and>
   (\<exists>consumed.
      [house_join ''h1'', message_create ''hi'', house_join ''h2'', message_create ''later''] =
        consumed @ [message_create ''later''] \<and>
      storage \<lparr>is_open = True, is_ready = False, connection_start_set = True,
                startup_time_set = False, storage = [PyStr ''h1'', PyStr ''h2''],
                trace = [Received (house_join ''h1''), Received (message_create ''hi''),
                         Received (house_join ''h2'')]\<rparr> =
        apply_joins cache_ops (storage (connected [])) consumed \<and>
      houses_len cache_ops
        (storage \<lparr>is_open = True, is_ready = False, connection_start_set = True,
                  startup_time_set = False, storage = [PyStr ''h1'', PyStr ''h2''],
                  trace = [Received (house_join ''h1''), Received (message_create ''hi''),
                           Received (house_join ''h2'')]\<rparr>) = 2 \<and>
      (\<forall>k<length consumed.
         houses_len cache_ops (apply_joins cache_ops (storage (connected [])) (take k consumed)) \<noteq> 2)) \<and>
   fst (init_loop cache_ops (PyDict [(''h1'', PyDict []), (''h2'', PyDict [])]) (connected []) []
          [house_join ''h1'', message_create ''hi'']) = Suspended"
proof -
  have l: "py_len (PyDict [(''h1'', PyDict []), (''h2'', PyDict [])]) = Inr 2"
    by (simp add: py_len_def)
  have f: "\<forall>m\<in>set [house_join ''h1'', message_create ''hi'']. frame_of m \<noteq> None"
    by (simp add: frame_of_def handshake_defs)
  have k: "\<forall>k\<le>length [house_join ''h1'', message_create ''hi''].
      houses_len cache_ops (apply_joins cache_ops (storage (connected []))
        (take k [house_join ''h1'', message_create ''hi''])) \<noteq> 2"
    by (auto simp: le_Suc_eq apply_joins_def apply_join_def frame_of_def handshake_defs)
  have e: "3 \<le> length [house_join ''h1'', message_create ''hi'', house_join ''h2'', message_create ''later''] \<and>
      (\<forall>m\<in>set (take 3 [house_join ''h1'', message_create ''hi'', house_join ''h2'', message_create ''later'']).
          frame_of m \<noteq> None) \<and>
      houses_len cache_ops (apply_joins cache_ops (storage (connected []))
        (take 3 [house_join ''h1'', message_create ''hi'', house_join ''h2'', message_create ''later''])) = 2 \<and>
      (\<forall>i<3. houses_len cache_ops (apply_joins cache_ops (storage (connected []))
        (take i [house_join ''h1'', message_create ''hi'', house_join ''h2'', message_create ''later''])) \<noteq> 2)"
    by (auto simp: less_Suc_eq numeral_3_eq_3 apply_joins_def apply_join_def frame_of_def handshake_defs)
  note t = init_loop_runs_while_counts_differ[OF l]
  have 1: "init_loop cache_ops (PyDict [(''h1'', PyDict []), (''h2'', PyDict [])]) (connected []) []
     [house_join ''h1'', message_create ''hi'', house_join ''h2'', message_create ''later''] =
     (Returned (),
      (connected [])\<lparr>trace := trace (connected []) @ map Received
           (take 3 [house_join ''h1'', message_create ''hi'', house_join ''h2'', message_create ''later'']),
         storage := apply_joins cache_ops (storage (connected []))
           (take 3 [house_join ''h1'', message_create ''hi'', house_join ''h2'', message_create ''later''])\<rparr>,
      [] @ filter (\<lambda>m. \<not> is_house_join m)
           (take 3 [house_join ''h1'', message_create ''hi'', house_join ''h2'', message_create ''later'']),
      drop 3 [house_join ''h1'', message_create ''hi'', house_join ''h2'', message_create ''later''])"
    by (rule t[THEN conjunct1, rule_format, OF e])
  have 2: "drop 3 [house_join ''h1'', message_create ''hi'', house_join ''h2'', message_create ''later''] =
     [message_create ''later'']"
    by (simp add: numeral_3_eq_3)
  show ?thesis
    using t[THEN conjunct2, THEN conjunct1, rule_format, OF two_houses_loop_plain]
      t[THEN conjunct2, THEN conjunct2, rule_format, OF conjI[OF f k], of "[]"] l 1 2
    by (intro conjI)
qed

end
